theory Spec2Isabelle
  imports Main "HOL-Library.AList" "HOL-Library.Multiset" "HOL-Library.Code_Target_Nat"
begin

section \<open>Data model of \<open>src/index.ts\<close>\<close>

text \<open>
  \<open>EventPriority\<close> is a numeric enum; \<open>priority_num\<close> gives the number each member
  stands for. The comparator \<open>(a, b) => a.priority - b.priority\<close> orders records by it.
\<close>

datatype EventPriority = MONITOR | HIGHEST | HIGH | NORMAL | LOW | LOWEST

fun priority_num :: "EventPriority \<Rightarrow> nat" where
  "priority_num MONITOR = 0"
| "priority_num HIGHEST = 1"
| "priority_num HIGH = 2"
| "priority_num NORMAL = 3"
| "priority_num LOW = 4"
| "priority_num LOWEST = 5"

text \<open>
  The fields of \<open>CancellableEvent\<close>, with the values the class initialises them to, and
  its three methods. \<open>cancel\<close> has a default parameter: a call without an argument is
  \<open>cancel None\<close> and stores the empty string.
\<close>

record CancellableEvent =
  cancelled :: bool
  cancelReason :: string

definition new_CancellableEvent :: CancellableEvent where
  "new_CancellableEvent = \<lparr>cancelled = False, cancelReason = []\<rparr>"

definition isCancelled :: "CancellableEvent \<Rightarrow> bool" where
  "isCancelled this = cancelled this"

definition getCancelReason :: "CancellableEvent \<Rightarrow> string" where
  "getCancelReason this = cancelReason this"

definition cancel :: "string option \<Rightarrow> CancellableEvent \<Rightarrow> CancellableEvent" where
  "cancel reason this =
     this\<lparr>cancelled := True,
          cancelReason := (case reason of None \<Rightarrow> [] | Some r \<Rightarrow> r)\<rparr>"

text \<open>
  An event object is an instance of a concrete subclass of \<open>Event\<close>, or of a subclass of
  \<open>CancellableEvent\<close>. The manager reads two things from it: the name of its
  constructor and, when it is an instance of \<open>CancellableEvent\<close>, the cancelled flag.
\<close>

datatype Event = PlainEvent string | Cancellable string CancellableEvent

fun constructor_name :: "Event \<Rightarrow> string" where
  "constructor_name (PlainEvent n) = n"
| "constructor_name (Cancellable n c) = n"

text \<open>\<open>event instanceof CancellableEvent && event.isCancelled()\<close>\<close>

fun cancelled_instance :: "Event \<Rightarrow> bool" where
  "cancelled_instance (PlainEvent n) = False"
| "cancelled_instance (Cancellable n c) = isCancelled c"

text \<open>
  A handler is a callback supplied by the host. What a run of it can do to the manager
  and to the event goes through their public methods, so a handler is modelled by the
  sequence of things one run of it does: calls of the four mutating methods of the
  manager, \<open>event.cancel\<close>, an effect outside the manager (\<open>Output\<close>), the passing of
  time (\<open>Elapse\<close>), and \<open>Throw\<close> for a throw or a rejected promise, which ends the run.
  Since \<open>emit\<close> awaits every handler, whatever other tasks do to the manager while the
  handler is pending is part of that sequence as well. A handler that calls \<open>emit\<close>
  again is outside this model.
\<close>

datatype op =
    Register string "action list" EventPriority
  | Unregister string
  | UnregisterAll "string option"
  | UnregisterByPriority string EventPriority
and action =
    Call op
  | Cancel "string option"
  | Throw string
  | Output string
  | Elapse nat

record EventHandlerMetadata =
  handler :: "action list"
  priority :: EventPriority
  id' :: string

record ExecutedHandler =
  priority_d :: EventPriority
  handlerId :: string
  executionTime_d :: nat

record EventResult =
  event :: nat
  handlerCount :: nat
  executionTime :: nat
  executedHandlers :: "ExecutedHandler list"

text \<open>
  Arrays and events are objects: two variables may hold the same array, and
  \<open>push\<close>, \<open>sort\<close> and \<open>splice\<close> change it in place for both. So the state has a
  store of arrays and a store of events, both addressed by numbers, and \<open>fresh\<close> is the
  next array address not yet used. \<open>listeners\<close> is the \<open>Map\<close> of the manager, kept in
  insertion order (the order \<open>entries()\<close> iterates in), from an event name to the
  address of its array of records. \<open>clock\<close> is what \<open>performance.now()\<close> reads; it
  only moves forward, so the differences \<open>emit\<close> takes are never negative. \<open>effects\<close>
  records what handlers do outside the manager. Memory is not bounded.
\<close>

record world =
  listeners :: "(string \<times> nat) list"
  handlerCounter :: nat
  arrays :: "nat \<Rightarrow> EventHandlerMetadata list"
  fresh :: nat
  events :: "nat \<Rightarrow> Event"
  clock :: nat
  effects :: "string list"

definition new_EventManager :: world where
  "new_EventManager =
     \<lparr>listeners = [], handlerCounter = 0, arrays = (\<lambda>a. []), fresh = 0,
      events = (\<lambda>e. PlainEvent []), clock = 0, effects = []\<rparr>"

section \<open>Numbers and strings\<close>

text \<open>
  \<open>handlerCounter\<close> is a JavaScript number, a double. Integers up to \<open>2 ^ 53\<close> are
  exact, and \<open>2 ^ 53 + 1\<close> rounds back to \<open>2 ^ 53\<close>, so \<open>++\<close> stops changing the
  counter there. The counter starts at 0 and changes by \<open>++\<close> only, so it never exceeds
  \<open>2 ^ 53\<close>, and on that range \<open>increment\<close> is what \<open>++\<close> computes.
\<close>

definition increment :: "nat \<Rightarrow> nat" where
  "increment n = (if n < 2 ^ 53 then n + 1 else n)"

text \<open>
  The template literal renders the counter in decimal, without leading zeros (numbers
  below \<open>10 ^ 21\<close> are not written with an exponent).
\<close>

definition digit_char :: "nat \<Rightarrow> char" where
  "digit_char d = ''0123456789'' ! d"

fun decimal :: "nat \<Rightarrow> string" where
  "decimal n = (if n < 10 then [digit_char n] else decimal (n div 10) @ [digit_char (n mod 10)])"

declare decimal.simps [simp del]

definition handler_id_of :: "nat \<Rightarrow> string" where
  "handler_id_of n = ''handler_'' @ decimal n"

section \<open>Array methods\<close>

text \<open>
  \<open>Array.prototype.sort\<close> is stable (ECMAScript 2019), and so is \<open>sort_key\<close>, an
  insertion sort.
\<close>

definition sort_by_priority :: "EventHandlerMetadata list \<Rightarrow> EventHandlerMetadata list" where
  "sort_by_priority hs = sort_key (\<lambda>h. priority_num (priority h)) hs"

text \<open>\<open>findIndex\<close>, with \<open>None\<close> for the \<open>-1\<close> of the source.\<close>

fun findIndex :: "('a \<Rightarrow> bool) \<Rightarrow> 'a list \<Rightarrow> nat option" where
  "findIndex P [] = None"
| "findIndex P (x # xs) =
     (if P x then Some 0 else map_option Suc (findIndex P xs))"

text \<open>\<open>splice(index, 1)\<close>\<close>

definition splice1 :: "nat \<Rightarrow> 'a list \<Rightarrow> 'a list" where
  "splice1 index xs = take index xs @ drop (Suc index) xs"

section \<open>The registry: \<open>EventManager\<close>\<close>

text \<open>
  \<open>register\<close>: when the name has no entry, a new empty array is stored under it. Then
  the counter is incremented, the record pushed on the array of the name and the array
  sorted in place. An event class is used through its \<open>name\<close> only, and a caller that
  leaves the priority out passes \<open>NORMAL\<close>. The second lookup cannot fail (the \<open>!\<close> of
  the source): its \<open>None\<close> branch is never taken.
\<close>

definition register :: "string \<Rightarrow> action list \<Rightarrow> EventPriority \<Rightarrow> world \<Rightarrow> string \<times> world" where
  "register eventName h p w =
     (let w1 = (if map_of (listeners w) eventName = None
                then w\<lparr>listeners := AList.update eventName (fresh w) (listeners w),
                       arrays := (arrays w)(fresh w := []),
                       fresh := Suc (fresh w)\<rparr>
                else w);
          counter = increment (handlerCounter w1);
          handlerId' = handler_id_of counter;
          w2 = w1\<lparr>handlerCounter := counter\<rparr>
      in case map_of (listeners w2) eventName of
           None \<Rightarrow> (handlerId', w2)
         | Some handlers \<Rightarrow>
             (handlerId',
              w2\<lparr>arrays := (arrays w2)(handlers :=
                    sort_by_priority
                      (arrays w2 handlers @ [\<lparr>handler = h, priority = p, id' = handlerId'\<rparr>]))\<rparr>))"

text \<open>
  \<open>unregister\<close>: the loop over \<open>this.listeners.entries()\<close>. The first array that holds
  a record of the id loses its first such record, its entry is deleted when it became
  empty, and the loop ends.
\<close>

fun unregister_loop :: "string \<Rightarrow> (string \<times> nat) list \<Rightarrow> world \<Rightarrow> bool \<times> world" where
  "unregister_loop handlerId' [] w = (False, w)"
| "unregister_loop handlerId' ((eventName, handlers) # rest) w =
     (case findIndex (\<lambda>h. id' h = handlerId') (arrays w handlers) of
        None \<Rightarrow> unregister_loop handlerId' rest w
      | Some index \<Rightarrow>
          (let w1 = w\<lparr>arrays := (arrays w)(handlers := splice1 index (arrays w handlers))\<rparr>
           in (True,
               if length (arrays w1 handlers) = 0
               then w1\<lparr>listeners := AList.delete eventName (listeners w1)\<rparr>
               else w1)))"

definition unregister :: "string \<Rightarrow> world \<Rightarrow> bool \<times> world" where
  "unregister handlerId' w = unregister_loop handlerId' (listeners w) w"

definition unregisterAll :: "string option \<Rightarrow> world \<Rightarrow> world" where
  "unregisterAll eventClass w =
     (case eventClass of
        Some eventName \<Rightarrow> w\<lparr>listeners := AList.delete eventName (listeners w)\<rparr>
      | None \<Rightarrow> w\<lparr>listeners := []\<rparr>)"

text \<open>
  \<open>unregisterByPriority\<close>: \<open>filter\<close> makes a new array, which replaces the old one in
  the map when it is not empty.
\<close>

definition unregisterByPriority :: "string \<Rightarrow> EventPriority \<Rightarrow> world \<Rightarrow> world" where
  "unregisterByPriority eventName p w =
     (case map_of (listeners w) eventName of
        None \<Rightarrow> w
      | Some handlers \<Rightarrow>
          (let filteredHandlers = filter (\<lambda>h. priority h \<noteq> p) (arrays w handlers);
               w1 = w\<lparr>arrays := (arrays w)(fresh w := filteredHandlers),
                      fresh := Suc (fresh w)\<rparr>
           in if length filteredHandlers = 0
              then w1\<lparr>listeners := AList.delete eventName (listeners w1)\<rparr>
              else w1\<lparr>listeners := AList.update eventName (fresh w) (listeners w1)\<rparr>))"

definition getHandlerIds :: "string \<Rightarrow> world \<Rightarrow> string list" where
  "getHandlerIds eventName w =
     (case map_of (listeners w) eventName of
        None \<Rightarrow> []
      | Some handlers \<Rightarrow> map id' (arrays w handlers))"

definition hasHandlers :: "string \<Rightarrow> world \<Rightarrow> bool" where
  "hasHandlers eventName w =
     (case map_of (listeners w) eventName of
        None \<Rightarrow> False
      | Some handlers \<Rightarrow> length (arrays w handlers) > 0)"

definition getHandlerCount :: "string \<Rightarrow> world \<Rightarrow> nat" where
  "getHandlerCount eventName w =
     (case map_of (listeners w) eventName of
        None \<Rightarrow> 0
      | Some handlers \<Rightarrow> length (arrays w handlers))"

text \<open>The records the map holds for a name: \<open>this.listeners.get(eventName) || []\<close>.\<close>

definition bucket :: "string \<Rightarrow> world \<Rightarrow> EventHandlerMetadata list" where
  "bucket eventName w =
     (case map_of (listeners w) eventName of
        None \<Rightarrow> []
      | Some handlers \<Rightarrow> arrays w handlers)"

section \<open>Running operations and handlers\<close>

datatype ret = Id string | Removed bool | Void

fun exec_op :: "op \<Rightarrow> world \<Rightarrow> ret \<times> world" where
  "exec_op (Register eventName h p) w = (case register eventName h p w of (i, w') \<Rightarrow> (Id i, w'))"
| "exec_op (Unregister handlerId') w = (case unregister handlerId' w of (b, w') \<Rightarrow> (Removed b, w'))"
| "exec_op (UnregisterAll eventClass) w = (Void, unregisterAll eventClass w)"
| "exec_op (UnregisterByPriority eventName p) w = (Void, unregisterByPriority eventName p w)"

fun exec_ops :: "op list \<Rightarrow> world \<Rightarrow> ret list \<times> world" where
  "exec_ops [] w = ([], w)"
| "exec_ops (x # xs) w =
     (case exec_op x w of (r, w') \<Rightarrow> (case exec_ops xs w' of (rs, w'') \<Rightarrow> (r # rs, w'')))"

text \<open>
  One step of a handler on the event \<open>e\<close> it was called with. The result is the error
  thrown, if any, and the state reached. \<open>cancel\<close> is a method of \<open>CancellableEvent\<close>
  only: calling it on another event is a \<open>TypeError\<close>.
\<close>

fun run_action :: "nat \<Rightarrow> action \<Rightarrow> world \<Rightarrow> string option \<times> world" where
  "run_action e (Call x) w = (None, snd (exec_op x w))"
| "run_action e (Cancel reason) w =
     (case events w e of
        PlainEvent n \<Rightarrow> (Some ''TypeError'', w)
      | Cancellable n c \<Rightarrow> (None, w\<lparr>events := (events w)(e := Cancellable n (cancel reason c))\<rparr>))"
| "run_action e (Throw err) w = (Some err, w)"
| "run_action e (Output s) w = (None, w\<lparr>effects := effects w @ [s]\<rparr>)"
| "run_action e (Elapse n) w = (None, w\<lparr>clock := clock w + n\<rparr>)"

fun run_handler :: "nat \<Rightarrow> action list \<Rightarrow> world \<Rightarrow> string option \<times> world" where
  "run_handler e [] w = (None, w)"
| "run_handler e (a # as) w =
     (case run_action e a w of
        (Some err, w') \<Rightarrow> (Some err, w')
      | (None, w') \<Rightarrow> run_handler e as w')"

section \<open>The dispatcher: \<open>emit\<close>\<close>

text \<open>
  The snapshot: a new array holding the records of the name, sorted.
\<close>

definition snapshot :: "string \<Rightarrow> world \<Rightarrow> nat \<times> world" where
  "snapshot eventName w =
     (fresh w,
      w\<lparr>arrays := (arrays w)(fresh w := sort_by_priority (bucket eventName w)),
        fresh := Suc (fresh w)\<rparr>)"

text \<open>
  The \<open>for ... of\<close> loop. The iterator of an array keeps an index and reads the array
  again at every step, its length included, so the loop is written over the address
  \<open>handlers\<close> and the index \<open>i\<close>, and reads the store as it is at that step. Such a loop
  need not end if the array grows while it runs; a run that does not end is \<open>None\<close>.
  A handler that throws ends \<open>emit\<close> with the error (\<open>Inl\<close>).
\<close>

partial_function (option) dispatch ::
  "nat \<Rightarrow> nat \<Rightarrow> nat \<Rightarrow> nat \<Rightarrow> ExecutedHandler list \<Rightarrow> world
     \<Rightarrow> ((string + nat \<times> ExecutedHandler list) \<times> world) option" where
  "dispatch e handlers i executed details w =
     (if i < length (arrays w handlers) then
        (let h = arrays w handlers ! i in
         if cancelled_instance (events w e) then Some (Inr (executed, details), w)
         else
           (let handlerStartTime = clock w in
            case run_handler e (handler h) w of
              (Some err, w') \<Rightarrow> Some (Inl err, w')
            | (None, w') \<Rightarrow>
                dispatch e handlers (Suc i) (Suc executed)
                  (details @ [\<lparr>priority_d = priority h, handlerId = id' h,
                               executionTime_d = clock w' - handlerStartTime\<rparr>]) w'))
      else Some (Inr (executed, details), w))"

declare dispatch.simps [code]

definition emit :: "nat \<Rightarrow> world \<Rightarrow> ((string + EventResult) \<times> world) option" where
  "emit e w =
     (let startTime = clock w;
          eventName = constructor_name (events w e)
      in case snapshot eventName w of
           (handlers, w1) \<Rightarrow>
             (case dispatch e handlers 0 0 [] w1 of
                None \<Rightarrow> None
              | Some (Inl err, w2) \<Rightarrow> Some (Inl err, w2)
              | Some (Inr (executed, details), w2) \<Rightarrow>
                  Some (Inr \<lparr>event = e, handlerCount = executed,
                             executionTime = clock w2 - startTime,
                             executedHandlers = details\<rparr>, w2)))"

section \<open>Invariants of the state\<close>

text \<open>
  The store is well formed: the map has one entry per name, no two names share an
  array, and every array the map points to has been allocated.
\<close>

definition heap_ok :: "world \<Rightarrow> bool" where
  "heap_ok w \<longleftrightarrow>
     distinct (map fst (listeners w)) \<and> distinct (map snd (listeners w))
     \<and> list_all (\<lambda>a. a < fresh w) (map snd (listeners w))"

text \<open>No entry of the map points to an empty array.\<close>

definition no_empty_bucket :: "world \<Rightarrow> bool" where
  "no_empty_bucket w \<longleftrightarrow> list_all (\<lambda>(n, a). arrays w a \<noteq> []) (listeners w)"

text \<open>All records of the table, in the order of the map.\<close>

definition all_records :: "world \<Rightarrow> EventHandlerMetadata list" where
  "all_records w = concat (map (\<lambda>(n, a). arrays w a) (listeners w))"

text \<open>
  The state \<open>unregister\<close> leaves when it removes the record at index \<open>k\<close> of the
  array \<open>a\<close> of the name \<open>n\<close>: the record is gone, and so is the entry of \<open>n\<close> when
  no record remains.
\<close>

definition removed_at :: "string \<Rightarrow> nat \<Rightarrow> nat \<Rightarrow> world \<Rightarrow> world" where
  "removed_at n a k w =
     (if splice1 k (arrays w a) = []
      then w\<lparr>arrays := (arrays w)(a := []), listeners := AList.delete n (listeners w)\<rparr>
      else w\<lparr>arrays := (arrays w)(a := splice1 k (arrays w a))\<rparr>)"

text \<open>Every array of the table is in non-decreasing order of priority.\<close>

definition sorted_buckets :: "world \<Rightarrow> bool" where
  "sorted_buckets w \<longleftrightarrow>
     list_all (\<lambda>(n, a). sorted (map (\<lambda>h. priority_num (priority h)) (arrays w a))) (listeners w)"

text \<open>No two records of the table have the same id.\<close>

definition ids_distinct :: "world \<Rightarrow> bool" where
  "ids_distinct w \<longleftrightarrow> distinct (map id' (all_records w))"

text \<open>Every id in the table was made from a value the counter has had.\<close>

definition ids_issued :: "world \<Rightarrow> bool" where
  "ids_issued w \<longleftrightarrow>
     list_all (\<lambda>h. id' h \<in> set (map handler_id_of [1..<Suc (handlerCounter w)])) (all_records w)"

text \<open>The ids that calls of \<open>register\<close> returned, and the number of such calls.\<close>

fun returned_ids :: "ret list \<Rightarrow> string list" where
  "returned_ids [] = []"
| "returned_ids (Id i # rs) = i # returned_ids rs"
| "returned_ids (r # rs) = returned_ids rs"

fun registrations :: "op list \<Rightarrow> nat" where
  "registrations [] = 0"
| "registrations (Register t h p # xs) = Suc (registrations xs)"
| "registrations (x # xs) = registrations xs"

section \<open>A dispatcher over a snapshot value\<close>

text \<open>
  An address is unshared when it is allocated and the map does not point to it: no
  method of the manager can reach the array stored there.
\<close>

definition unshared :: "nat \<Rightarrow> world \<Rightarrow> bool" where
  "unshared a w \<longleftrightarrow> a < fresh w \<and> a \<notin> snd ` set (listeners w)"

text \<open>
  The loop as the specification describes it: over a snapshot that is a value, a list
  of records fixed when the emission starts, which nothing done later can change.
  \<open>emit_snapshot\<close> dispatches over the sorted list of the records the map holds for the
  type of the event at the call. It starts in the state in which the copy of the source
  has been allocated, so that both dispatchers leave the same store.
\<close>

fun dispatch_snapshot ::
  "nat \<Rightarrow> EventHandlerMetadata list \<Rightarrow> nat \<Rightarrow> ExecutedHandler list \<Rightarrow> world
     \<Rightarrow> (string + nat \<times> ExecutedHandler list) \<times> world" where
  "dispatch_snapshot e [] executed details w = (Inr (executed, details), w)"
| "dispatch_snapshot e (h # hs) executed details w =
     (if cancelled_instance (events w e) then (Inr (executed, details), w)
      else
        (case run_handler e (handler h) w of
           (Some err, w') \<Rightarrow> (Inl err, w')
         | (None, w') \<Rightarrow>
             dispatch_snapshot e hs (Suc executed)
               (details @ [\<lparr>priority_d = priority h, handlerId = id' h,
                            executionTime_d = clock w' - clock w\<rparr>]) w'))"

definition emit_snapshot :: "nat \<Rightarrow> world \<Rightarrow> (string + EventResult) \<times> world" where
  "emit_snapshot e w =
     (let eventName = constructor_name (events w e)
      in case dispatch_snapshot e (sort_by_priority (bucket eventName w)) 0 []
                (snd (snapshot eventName w)) of
           (Inl err, w2) \<Rightarrow> (Inl err, w2)
         | (Inr (executed, details), w2) \<Rightarrow>
             (Inr \<lparr>event = e, handlerCount = executed,
                   executionTime = clock w2 - clock w,
                   executedHandlers = details\<rparr>, w2))"

text \<open>The steps of a handler that call \<open>event.cancel\<close>.\<close>

fun is_Cancel :: "action \<Rightarrow> bool" where
  "is_Cancel (Cancel r) = True"
| "is_Cancel a = False"

text \<open>
  Registering a list of handlers, each with its priority, on one type, and the records
  these calls make, with the ids the counter gives them.
\<close>

fun register_all :: "string \<Rightarrow> (action list \<times> EventPriority) list \<Rightarrow> world \<Rightarrow> world" where
  "register_all t [] w = w"
| "register_all t ((h, p) # rs) w = register_all t rs (snd (register t h p w))"

fun new_records :: "nat \<Rightarrow> (action list \<times> EventPriority) list \<Rightarrow> EventHandlerMetadata list" where
  "new_records c [] = []"
| "new_records c ((h, p) # rs) =
     \<lparr>handler = h, priority = p, id' = handler_id_of (increment c)\<rparr>
       # new_records (increment c) rs"

section \<open>Example states\<close>

text \<open>A manager with two handlers on each of two event types.\<close>

definition two_types :: world where
  "two_types = snd (exec_ops [Register ''TypeA'' [] HIGH, Register ''TypeB'' [Output ''b1''] LOW,
     Register ''TypeA'' [] LOW, Register ''TypeB'' [Output ''b2''] HIGH] new_EventManager)"

text \<open>
  \<open>n\<close> times: register a handler and clear the table. The table is empty afterwards,
  and the counter has been incremented \<open>n\<close> times.
\<close>

definition register_and_clear :: "nat \<Rightarrow> op list" where
  "register_and_clear n = concat (replicate n [Register ''E'' [] NORMAL, UnregisterAll None])"

text \<open>
  Three handlers on one type whose bodies change the registry while the event is being
  dispatched: the first to run removes the second and registers a new handler, the
  second removes the third.
\<close>

definition mutating_handlers :: world where
  "mutating_handlers =
     (snd (exec_ops
        [Register ''MyEvent'' [Output ''low''] LOWEST,
         Register ''MyEvent'' [Output ''high'', Call (Unregister ''handler_1'')] HIGH,
         Register ''MyEvent''
           [Output ''monitor'', Call (UnregisterByPriority ''MyEvent'' HIGH),
            Call (Register ''MyEvent'' [Output ''late''] MONITOR)] MONITOR]
        new_EventManager))
     \<lparr>events := (\<lambda>e. PlainEvent ''MyEvent'')\<rparr>"

text \<open>
  The cancellable event of the tests: the first handler cancels with a reason, the
  second must not run.
\<close>

definition cancelling_handlers :: world where
  "cancelling_handlers =
     (snd (exec_ops
        [Register ''MyCancellableEvent'' [Output ''first'', Cancel (Some ''stop-now''), Output ''done''] NORMAL,
         Register ''MyCancellableEvent'' [Output ''second-should-not-run''] LOW]
        new_EventManager))
     \<lparr>events := (\<lambda>e. Cancellable ''MyCancellableEvent'' new_CancellableEvent)\<rparr>"

text \<open>The same two handlers, and an event that is cancelled before it is emitted.\<close>

definition already_cancelled :: world where
  "already_cancelled =
     cancelling_handlers
     \<lparr>events := (\<lambda>e. Cancellable ''MyCancellableEvent''
                      \<lparr>cancelled = True, cancelReason = ''earlier''\<rparr>)\<rparr>"

text \<open>Three handlers, the second of which throws after an effect of its own.\<close>

definition throwing_handlers :: world where
  "throwing_handlers =
     (snd (exec_ops
        [Register ''MyEvent'' [Output ''one''] HIGH,
         Register ''MyEvent'' [Output ''two'', Throw ''boom'', Output ''unreached''] NORMAL,
         Register ''MyEvent'' [Output ''three''] LOW]
        new_EventManager))
     \<lparr>events := (\<lambda>e. PlainEvent ''MyEvent'')\<rparr>"

text \<open>
  The first test of the repository, with one more handler at a priority already taken.
\<close>

definition test_manager :: world where
  "test_manager = new_EventManager\<lparr>events := (\<lambda>e. PlainEvent ''MyEvent'')\<rparr>"

definition test_registrations :: "(action list \<times> EventPriority) list" where
  "test_registrations =
     [([Output ''low''], LOWEST), ([Output ''high''], HIGH), ([Output ''monitor''], MONITOR),
      ([Output ''high2''], HIGH)]"

section \<open>Association lists and the store\<close>

lemma update_absent: "map_of al k = None \<Longrightarrow> AList.update k v al = al @ [(k, v)]"
  by (induction al) (auto split: if_splits)

lemma snd_update_subset: "set (map snd (AList.update k v al)) \<subseteq> insert v (set (map snd al))"
  by (induction al) auto

lemma distinct_snd_update:
  "distinct (map snd al) \<Longrightarrow> v \<notin> snd ` set al \<Longrightarrow> distinct (map snd (AList.update k v al))"
proof (induction al)
  case Nil then show ?case by simp
next
  case (Cons x al)
  have "set (map snd (AList.update k v al)) \<subseteq> insert v (set (map snd al))" by (rule snd_update_subset)
  with Cons show ?case by (cases x) (auto split: if_splits)
qed

lemma distinct_snd_delete: "distinct (map snd al) \<Longrightarrow> distinct (map snd (AList.delete k al))"
  by (simp add: AList.delete_eq distinct_map_filter)

lemma map_of_SomeD_snd: "map_of al k = Some a \<Longrightarrow> a \<in> snd ` set al"
  by (auto dest!: map_of_SomeD intro: rev_image_eqI)

lemma map_of_distinct_snd:
  "distinct (map snd al) \<Longrightarrow> map_of al k = Some a \<Longrightarrow> map_of al k' = Some a \<Longrightarrow> k = k'"
  by (induction al) (auto split: if_splits dest: map_of_SomeD_snd)

lemma heap_ok_fresh: "heap_ok w \<Longrightarrow> map_of (listeners w) n = Some a \<Longrightarrow> a < fresh w"
  by (auto simp: heap_ok_def list_all_iff dest: map_of_SomeD_snd)

section \<open>The operations of the registry, seen through \<open>bucket\<close>\<close>

lemma getHandlerIds_bucket: "getHandlerIds n w = map id' (bucket n w)"
  by (simp add: getHandlerIds_def bucket_def split: option.splits)

lemma getHandlerCount_bucket: "getHandlerCount n w = length (bucket n w)"
  by (simp add: getHandlerCount_def bucket_def split: option.splits)

lemma hasHandlers_bucket: "hasHandlers n w \<longleftrightarrow> bucket n w \<noteq> []"
  by (simp add: hasHandlers_def bucket_def split: option.splits)

lemma register_fst: "fst (register t h p w) = handler_id_of (increment (handlerCounter w))"
  by (simp add: register_def Let_def split: option.splits)

lemma register_counter: "handlerCounter (snd (register t h p w)) = increment (handlerCounter w)"
  by (simp add: register_def Let_def split: option.splits)

lemma register_bucket:
  assumes "heap_ok w"
  shows "bucket n (snd (register t h p w)) =
     (if n = t
      then sort_by_priority (bucket t w @ [\<lparr>handler = h, priority = p, id' = handler_id_of (increment (handlerCounter w))\<rparr>])
      else bucket n w)"
proof (cases "map_of (listeners w) t")
  case None
  then show ?thesis
    using assms
    by (auto simp: register_def Let_def bucket_def update_conv' heap_ok_def list_all_iff
        split: option.splits dest!: map_of_SomeD_snd)
next
  case (Some a)
  then show ?thesis
    using assms
    by (auto simp: register_def Let_def bucket_def heap_ok_def split: option.splits
        dest: map_of_distinct_snd)
qed

lemma register_heap_ok: "heap_ok w \<Longrightarrow> heap_ok (snd (register t h p w))"
  by (auto simp: register_def Let_def heap_ok_def update_absent list_all_iff split: option.splits)

lemma register_listeners_dom:
  "fst ` set (listeners (snd (register t h p w))) = insert t (fst ` set (listeners w))"
  by (auto simp: register_def Let_def dom_update split: option.splits dest: map_of_SomeD
      simp: weak_map_of_SomeI map_of_eq_None_iff)

lemma unregisterAll_bucket:
  "bucket n (unregisterAll (Some t) w) = (if n = t then [] else bucket n w)"
  by (simp add: unregisterAll_def bucket_def delete_conv' split: option.splits)

lemma set_delete_subset: "set (AList.delete k al) \<subseteq> set al"
  by (auto simp: AList.delete_eq)

lemma heap_ok_delete:
  assumes "heap_ok w"
  shows "heap_ok (w\<lparr>listeners := AList.delete k (listeners w)\<rparr>)"
proof -
  have "list_all (\<lambda>a. a < fresh w) (map snd (AList.delete k (listeners w)))"
    using assms set_delete_subset[of k "listeners w"] by (auto simp: heap_ok_def list_all_iff)
  then show ?thesis
    using assms by (simp add: heap_ok_def distinct_delete distinct_snd_delete)
qed

lemma unregisterAll_heap_ok: "heap_ok w \<Longrightarrow> heap_ok (unregisterAll c w)"
  by (cases c) (simp_all add: unregisterAll_def heap_ok_delete, simp add: heap_ok_def)

lemma unregisterByPriority_bucket:
  assumes "heap_ok w"
  shows "bucket n (unregisterByPriority t p w) =
     (if n = t then filter (\<lambda>h. priority h \<noteq> p) (bucket t w) else bucket n w)"
  using assms
  by (auto simp: unregisterByPriority_def Let_def bucket_def delete_conv' update_conv'
      split: option.splits dest: heap_ok_fresh)

lemma heap_ok_alloc:
  "heap_ok w \<Longrightarrow> heap_ok (w\<lparr>arrays := f, fresh := Suc (fresh w)\<rparr>)"
  by (auto simp: heap_ok_def list_all_iff)

lemma unregisterByPriority_heap_ok:
  assumes "heap_ok w"
  shows "heap_ok (unregisterByPriority t p w)"
proof (cases "map_of (listeners w) t")
  case None
  then show ?thesis using assms by (simp add: unregisterByPriority_def)
next
  case (Some a)
  let ?w1 = "w\<lparr>arrays := (arrays w)(fresh w := filter (\<lambda>h. priority h \<noteq> p) (arrays w a)), fresh := Suc (fresh w)\<rparr>"
  have ok1: "heap_ok ?w1" using assms by (rule heap_ok_alloc)
  have fr: "fresh w \<notin> snd ` set (listeners w)"
    using assms by (auto simp: heap_ok_def list_all_iff)
  have sub: "set (map snd (AList.update t (fresh w) (listeners w))) \<subseteq> insert (fresh w) (set (map snd (listeners w)))"
    by (rule snd_update_subset)
  have "heap_ok (?w1\<lparr>listeners := AList.update t (fresh w) (listeners ?w1)\<rparr>)"
    unfolding heap_ok_def
  proof (intro conjI)
    show "distinct (map fst (listeners (?w1\<lparr>listeners := AList.update t (fresh w) (listeners ?w1)\<rparr>)))"
      using assms by (simp add: heap_ok_def distinct_update)
    show "distinct (map snd (listeners (?w1\<lparr>listeners := AList.update t (fresh w) (listeners ?w1)\<rparr>)))"
      using assms fr by (simp add: heap_ok_def distinct_snd_update)
    show "list_all (\<lambda>a. a < fresh (?w1\<lparr>listeners := AList.update t (fresh w) (listeners ?w1)\<rparr>))
            (map snd (listeners (?w1\<lparr>listeners := AList.update t (fresh w) (listeners ?w1)\<rparr>)))"
      using assms sub by (fastforce simp: heap_ok_def list_all_iff less_Suc_eq)
  qed
  moreover have "heap_ok (?w1\<lparr>listeners := AList.delete t (listeners ?w1)\<rparr>)"
    using ok1 by (rule heap_ok_delete)
  ultimately show ?thesis
    using Some by (auto simp: unregisterByPriority_def Let_def heap_ok_def)
qed

lemma findIndex_None: "findIndex P xs = None \<longleftrightarrow> (\<forall>x\<in>set xs. \<not> P x)"
  by (induction xs) auto

lemma splice1_first_match:
  "findIndex (\<lambda>h. f h = i) xs = Some k \<Longrightarrow> distinct (map f xs)
   \<Longrightarrow> splice1 k xs = filter (\<lambda>h. f h \<noteq> i) xs"
proof (induction xs arbitrary: k)
  case Nil then show ?case by simp
next
  case (Cons x xs)
  show ?case
  proof (cases "f x = i")
    case True
    with Cons.prems have "k = 0" by simp
    moreover have "\<forall>h\<in>set xs. f h \<noteq> i"
      using Cons.prems True by (auto simp: image_iff)
    then have "filter (\<lambda>h. f h \<noteq> i) xs = xs"
      by (simp add: filter_id_conv)
    ultimately show ?thesis using True by (simp add: splice1_def)
  next
    case False
    with Cons.prems obtain j where j: "findIndex (\<lambda>h. f h = i) xs = Some j" "k = Suc j"
      by auto
    with Cons.IH[of j] Cons.prems False show ?thesis by (simp add: splice1_def)
  qed
qed

lemma unregister_loop_absent:
  "\<forall>(n, a)\<in>set es. i \<notin> id' ` set (arrays w a) \<Longrightarrow> unregister_loop i es w = (False, w)"
proof (induction es)
  case Nil then show ?case by simp
next
  case (Cons x es)
  obtain n a where x: "x = (n, a)" by (cases x)
  have "findIndex (\<lambda>h. id' h = i) (arrays w a) = None"
    using Cons.prems x by (auto simp: findIndex_None)
  then show ?case using Cons x by simp
qed

section \<open>\<open>unregister\<close>\<close>

lemma ids_disjoint_entries:
  "distinct (map f (concat (map (\<lambda>(n, a). g a) es))) \<Longrightarrow> (n, a) \<in> set es \<Longrightarrow> (m, b) \<in> set es
   \<Longrightarrow> (n, a) \<noteq> (m, b) \<Longrightarrow> i \<in> f ` set (g a) \<Longrightarrow> i \<notin> f ` set (g b)"
proof (induction es)
  case Nil then show ?case by simp
next
  case (Cons e es)
  then show ?case by (cases e) (fastforce simp: image_iff)
qed

lemma ids_elsewhere:
  assumes "distinct (map id' (all_records w))" "heap_ok w"
    and "(n, a) \<in> set (listeners w)" "(m, b) \<in> set (listeners w)" "b \<noteq> a"
    and "i \<in> id' ` set (arrays w a)"
  shows "i \<notin> id' ` set (arrays w b)"
  using ids_disjoint_entries[of id' "arrays w" "listeners w" n a m b i] assms
  by (simp add: all_records_def)

lemma distinct_bucket_ids:
  "distinct (map f (concat (map (\<lambda>(n, a). g a) es))) \<Longrightarrow> (n, a) \<in> set es \<Longrightarrow> distinct (map f (g a))"
  by (induction es) auto

lemma unregister_loop_found:
  assumes "es = pre @ (n, a) # post"
    and "\<forall>(m, b)\<in>set pre. i \<notin> id' ` set (arrays w b)"
    and "findIndex (\<lambda>h. id' h = i) (arrays w a) = Some k"
  shows "unregister_loop i es w = (True, removed_at n a k w)"
  using assms(1,2)
proof (induction pre arbitrary: es)
  case Nil
  with assms(3) show ?case by (simp add: Let_def removed_at_def)
next
  case (Cons x pre)
  obtain m b where x: "x = (m, b)" by (cases x)
  have "findIndex (\<lambda>h. id' h = i) (arrays w b) = None"
    using Cons.prems x by (auto simp: findIndex_None)
  with Cons x show ?case by simp
qed

lemma unregister_absent:
  "i \<notin> id' ` set (all_records w) \<Longrightarrow> unregister i w = (False, w)"
  unfolding unregister_def
  by (rule unregister_loop_absent) (auto simp: all_records_def)

lemma unregister_present:
  assumes "i \<in> id' ` set (all_records w)"
  obtains n a k where "(n, a) \<in> set (listeners w)"
    "findIndex (\<lambda>h. id' h = i) (arrays w a) = Some k"
    "unregister i w = (True, removed_at n a k w)"
proof -
  obtain x where x: "x \<in> set (all_records w)" "i = id' x"
    using assms by auto
  then obtain n0 a0 where "(n0, a0) \<in> set (listeners w)" "x \<in> set (arrays w a0)"
    by (auto simp: all_records_def)
  then have "\<exists>e\<in>set (listeners w). i \<in> id' ` set (arrays w (snd e))"
    using x(2) by (intro bexI[of _ "(n0, a0)"]) auto
  then obtain pre e post where sp: "listeners w = pre @ e # post"
    "i \<in> id' ` set (arrays w (snd e))" "\<forall>x\<in>set pre. i \<notin> id' ` set (arrays w (snd x))"
    using split_list_first_prop[of "listeners w" "\<lambda>e. i \<in> id' ` set (arrays w (snd e))"] by blast
  obtain n a where e: "e = (n, a)" by (cases e)
  have mem: "(n, a) \<in> set (listeners w)" using sp(1) e by simp
  obtain k where k: "findIndex (\<lambda>h. id' h = i) (arrays w a) = Some k"
    using sp(2) e by (cases "findIndex (\<lambda>h. id' h = i) (arrays w a)") (auto simp: findIndex_None)
  have "unregister_loop i (listeners w) w = (True, removed_at n a k w)"
    by (rule unregister_loop_found[where pre = pre and post = post]) (use sp e k in auto)
  then show ?thesis using that mem k by (simp add: unregister_def)
qed

lemma unregister_fst: "fst (unregister i w) \<longleftrightarrow> i \<in> id' ` set (all_records w)"
proof (cases "i \<in> id' ` set (all_records w)")
  case True
  from True obtain n a k where "unregister i w = (True, removed_at n a k w)"
    by (rule unregister_present)
  with True show ?thesis by simp
next
  case False
  then show ?thesis by (simp add: unregister_absent)
qed

lemma removed_at_heap_ok: "heap_ok w \<Longrightarrow> heap_ok (removed_at n a k w)"
  using heap_ok_delete[of w n]
  by (auto simp: removed_at_def heap_ok_def)

lemma removed_at_dom:
  "fst ` set (listeners (removed_at n a k w)) =
     (if splice1 k (arrays w a) = []
      then fst ` set (listeners w) - {n} else fst ` set (listeners w))"
  by (auto simp: removed_at_def AList.delete_eq image_iff)

lemma removed_at_bucket:
  assumes "heap_ok w" and "(n, a) \<in> set (listeners w)"
  shows "bucket m (removed_at n a k w) = (if m = n then splice1 k (bucket n w) else bucket m w)"
proof (cases "m = n")
  case True
  have "map_of (listeners w) n = Some a"
    using assms by (simp add: heap_ok_def)
  then show ?thesis using True
    by (simp add: removed_at_def bucket_def delete_conv')
next
  case False
  have na: "map_of (listeners w) n = Some a"
    using assms by (simp add: heap_ok_def)
  have "map_of (listeners w) m \<noteq> Some a"
    using na False assms(1) by (auto simp: heap_ok_def dest: map_of_distinct_snd)
  then show ?thesis using False
    by (auto simp: removed_at_def bucket_def split: option.splits)
qed

lemma unregister_heap_ok:
  assumes "heap_ok w"
  shows "heap_ok (snd (unregister i w))"
proof (cases "i \<in> id' ` set (all_records w)")
  case True
  from True obtain n a k where "unregister i w = (True, removed_at n a k w)"
    by (rule unregister_present)
  with assms show ?thesis by (simp add: removed_at_heap_ok)
next
  case False
  with assms show ?thesis by (simp add: unregister_absent)
qed

lemma bucket_entry:
  assumes "heap_ok w" "(n, a) \<in> set (listeners w)"
  shows "bucket n w = arrays w a"
  using assms by (simp add: bucket_def heap_ok_def)

lemma ids_distinct_bucket:
  assumes "ids_distinct w" "(n, a) \<in> set (listeners w)"
  shows "distinct (map id' (arrays w a))"
  using distinct_bucket_ids[of id' "arrays w" "listeners w" n a] assms
  by (simp add: all_records_def ids_distinct_def)

lemma removed_at_bucket_filter:
  assumes "heap_ok w" "ids_distinct w"
    and "(n, a) \<in> set (listeners w)" "findIndex (\<lambda>h. id' h = i) (arrays w a) = Some k"
  shows "bucket m (removed_at n a k w) = filter (\<lambda>h. id' h \<noteq> i) (bucket m w)"
proof (cases "m = n")
  case True
  have "splice1 k (arrays w a) = filter (\<lambda>h. id' h \<noteq> i) (arrays w a)"
    using assms(4) ids_distinct_bucket[OF assms(2,3)] by (rule splice1_first_match)
  then show ?thesis
    using True removed_at_bucket[OF assms(1,3)] bucket_entry[OF assms(1,3)] by simp
next
  case False
  have ia: "i \<in> id' ` set (arrays w a)"
  proof (rule ccontr)
    assume "i \<notin> id' ` set (arrays w a)"
    then have "findIndex (\<lambda>h. id' h = i) (arrays w a) = None"
      by (auto simp: findIndex_None)
    with assms(4) show False by simp
  qed
  show ?thesis
  proof (cases "map_of (listeners w) m")
    case None
    then show ?thesis using False removed_at_bucket[OF assms(1,3)] by (simp add: bucket_def)
  next
    case (Some b)
    have mb: "(m, b) \<in> set (listeners w)" using Some by (rule map_of_SomeD)
    have "map_of (listeners w) n = Some a"
      using assms(1,3) by (simp add: heap_ok_def)
    with Some False assms(1) have ba: "b \<noteq> a"
      by (auto simp: heap_ok_def dest: map_of_distinct_snd)
    have "i \<notin> id' ` set (arrays w b)"
      using ids_elsewhere[OF _ assms(1,3) mb ba ia] assms(2) by (simp add: ids_distinct_def)
    then have "filter (\<lambda>h. id' h \<noteq> i) (arrays w b) = arrays w b"
      by (auto simp: filter_id_conv)
    then show ?thesis using Some False removed_at_bucket[OF assms(1,3)]
      by (simp add: bucket_def)
  qed
qed

section \<open>Invariants kept by the operations\<close>

lemma entries_iff:
  "distinct (map fst es) \<Longrightarrow>
   list_all (\<lambda>(n, a). P (g a)) es \<longleftrightarrow> (\<forall>n a. map_of es n = Some a \<longrightarrow> P (g a))"
  by (auto simp: list_all_iff dest: map_of_SomeD)

lemma no_empty_bucket_iff:
  assumes "heap_ok w"
  shows "no_empty_bucket w \<longleftrightarrow> (\<forall>n\<in>fst ` set (listeners w). bucket n w \<noteq> [])"
proof -
  have d: "distinct (map fst (listeners w))" using assms by (simp add: heap_ok_def)
  have "no_empty_bucket w \<longleftrightarrow> (\<forall>n a. map_of (listeners w) n = Some a \<longrightarrow> arrays w a \<noteq> [])"
    unfolding no_empty_bucket_def using entries_iff[OF d, of "\<lambda>xs. xs \<noteq> []" "arrays w"] .
  also have "\<dots> \<longleftrightarrow> (\<forall>n\<in>fst ` set (listeners w). bucket n w \<noteq> [])"
    using d by (fastforce simp: bucket_def split: option.splits dest: map_of_SomeD)
  finally show ?thesis .
qed

lemma sorted_buckets_iff:
  assumes "heap_ok w"
  shows "sorted_buckets w \<longleftrightarrow> (\<forall>n. sorted (map (\<lambda>h. priority_num (priority h)) (bucket n w)))"
proof -
  have d: "distinct (map fst (listeners w))" using assms by (simp add: heap_ok_def)
  have "sorted_buckets w \<longleftrightarrow>
      (\<forall>n a. map_of (listeners w) n = Some a \<longrightarrow> sorted (map (\<lambda>h. priority_num (priority h)) (arrays w a)))"
    unfolding sorted_buckets_def
    using entries_iff[OF d, of "\<lambda>xs. sorted (map (\<lambda>h. priority_num (priority h)) xs)" "arrays w"] .
  also have "\<dots> \<longleftrightarrow> (\<forall>n. sorted (map (\<lambda>h. priority_num (priority h)) (bucket n w)))"
    by (auto simp: bucket_def split: option.splits)
  finally show ?thesis .
qed

lemma unregisterAll_dom:
  "fst ` set (listeners (unregisterAll (Some t) w)) = fst ` set (listeners w) - {t}"
  by (auto simp: unregisterAll_def AList.delete_eq image_iff)

lemma unregisterByPriority_dom:
  "fst ` set (listeners (unregisterByPriority t p w)) =
     (if filter (\<lambda>h. priority h \<noteq> p) (bucket t w) = []
      then fst ` set (listeners w) - {t} else fst ` set (listeners w))"
proof (cases "map_of (listeners w) t")
  case None
  then have "t \<notin> fst ` set (listeners w)" by (simp add: map_of_eq_None_iff)
  with None show ?thesis by (simp add: unregisterByPriority_def bucket_def)
next
  case (Some a)
  then have "t \<in> fst ` set (listeners w)" by (metis map_of_eq_None_iff option.distinct(1))
  with Some show ?thesis
    by (auto simp: unregisterByPriority_def bucket_def Let_def dom_update AList.delete_eq image_iff)
qed

lemma sort_by_priority_sorted:
  "sorted (map (\<lambda>h. priority_num (priority h)) (sort_by_priority xs))"
  by (simp add: sort_by_priority_def)

lemma sort_by_priority_Nil: "sort_by_priority xs = [] \<longleftrightarrow> xs = []"
  by (metis length_0_conv length_sort sort_by_priority_def)

lemma sort_by_priority_set: "set (sort_by_priority xs) = set xs"
  by (simp add: sort_by_priority_def)

lemma sort_by_priority_id:
  "sorted (map (\<lambda>h. priority_num (priority h)) xs) \<Longrightarrow> sort_by_priority xs = xs"
  by (simp add: sort_by_priority_def sort_key_id_if_sorted)

lemma register_no_empty:
  assumes "heap_ok w" "no_empty_bucket w"
  shows "no_empty_bucket (snd (register t h p w))"
  using assms register_heap_ok[OF assms(1), of t h p]
  by (auto simp: no_empty_bucket_iff register_bucket register_listeners_dom sort_by_priority_Nil)

lemma register_sorted:
  assumes "heap_ok w" "sorted_buckets w"
  shows "sorted_buckets (snd (register t h p w))"
  using assms register_heap_ok[OF assms(1), of t h p]
  by (auto simp: sorted_buckets_iff register_bucket sort_by_priority_sorted)

lemma unregisterAll_no_empty:
  assumes "heap_ok w" "no_empty_bucket w"
  shows "no_empty_bucket (unregisterAll c w)"
proof (cases c)
  case None
  then show ?thesis by (simp add: unregisterAll_def no_empty_bucket_def)
next
  case (Some t)
  then show ?thesis
    using assms unregisterAll_heap_ok[OF assms(1), of c]
    by (auto simp: no_empty_bucket_iff unregisterAll_bucket unregisterAll_dom)
qed

lemma unregisterAll_sorted:
  assumes "heap_ok w" "sorted_buckets w"
  shows "sorted_buckets (unregisterAll c w)"
proof (cases c)
  case None
  then show ?thesis by (simp add: unregisterAll_def sorted_buckets_def)
next
  case (Some t)
  then show ?thesis
    using assms unregisterAll_heap_ok[OF assms(1), of c]
    by (auto simp: sorted_buckets_iff unregisterAll_bucket)
qed

lemma unregisterByPriority_no_empty:
  assumes "heap_ok w" "no_empty_bucket w"
  shows "no_empty_bucket (unregisterByPriority t p w)"
  using assms unregisterByPriority_heap_ok[OF assms(1), of t p]
  by (auto simp: no_empty_bucket_iff unregisterByPriority_bucket unregisterByPriority_dom
      split: if_splits)

lemma unregisterByPriority_sorted:
  assumes "heap_ok w" "sorted_buckets w"
  shows "sorted_buckets (unregisterByPriority t p w)"
  using assms unregisterByPriority_heap_ok[OF assms(1), of t p]
  by (auto simp: sorted_buckets_iff unregisterByPriority_bucket sorted_filter)

lemma splice1_Nil [simp]: "splice1 k [] = []"
  by (simp add: splice1_def)

lemma splice1_0 [simp]: "splice1 0 (x # xs) = xs"
  by (simp add: splice1_def)

lemma splice1_Suc [simp]: "splice1 (Suc k) (x # xs) = x # splice1 k xs"
  by (simp add: splice1_def)

lemma set_splice1: "set (splice1 k xs) \<subseteq> set xs"
  by (auto simp: splice1_def dest: in_set_takeD in_set_dropD)

lemma sorted_splice1: "sorted (map f xs) \<Longrightarrow> sorted (map f (splice1 k xs))"
proof (induction xs arbitrary: k)
  case Nil then show ?case by simp
next
  case (Cons x xs)
  show ?case
  proof (cases k)
    case 0 with Cons.prems show ?thesis by simp
  next
    case (Suc j)
    with Cons set_splice1[of j xs] show ?thesis by auto
  qed
qed

lemma unregister_no_empty:
  assumes "heap_ok w" "no_empty_bucket w"
  shows "no_empty_bucket (snd (unregister i w))"
proof (cases "i \<in> id' ` set (all_records w)")
  case True
  from True obtain n a k where na: "(n, a) \<in> set (listeners w)"
    and u: "unregister i w = (True, removed_at n a k w)"
    by (rule unregister_present)
  have b: "bucket n w = arrays w a" using assms(1) na by (rule bucket_entry)
  show ?thesis
    using assms removed_at_heap_ok[OF assms(1), of n a k] u b
    by (auto simp: no_empty_bucket_iff removed_at_bucket[OF assms(1) na] removed_at_dom
        split: if_splits)
next
  case False
  with assms show ?thesis by (simp add: unregister_absent)
qed

lemma unregister_sorted:
  assumes "heap_ok w" "sorted_buckets w"
  shows "sorted_buckets (snd (unregister i w))"
proof (cases "i \<in> id' ` set (all_records w)")
  case True
  from True obtain n a k where na: "(n, a) \<in> set (listeners w)"
    and u: "unregister i w = (True, removed_at n a k w)"
    by (rule unregister_present)
  show ?thesis
    using assms removed_at_heap_ok[OF assms(1), of n a k] u
    by (auto simp: sorted_buckets_iff removed_at_bucket[OF assms(1) na] sorted_splice1)
next
  case False
  with assms show ?thesis by (simp add: unregister_absent)
qed

lemma exec_op_snd [simp]:
  "snd (exec_op (Register t h p) w) = snd (register t h p w)"
  "snd (exec_op (Unregister i) w) = snd (unregister i w)"
  "snd (exec_op (UnregisterAll c) w) = unregisterAll c w"
  "snd (exec_op (UnregisterByPriority t p) w) = unregisterByPriority t p w"
  by (simp_all add: case_prod_beta)

lemma exec_op_fst [simp]:
  "fst (exec_op (Register t h p) w) = Id (fst (register t h p w))"
  "fst (exec_op (Unregister i) w) = Removed (fst (unregister i w))"
  "fst (exec_op (UnregisterAll c) w) = Void"
  "fst (exec_op (UnregisterByPriority t p) w) = Void"
  by (simp_all add: case_prod_beta)

declare exec_op.simps [simp del]

lemma exec_ops_snd_Cons [simp]:
  "snd (exec_ops (x # xs) w) = snd (exec_ops xs (snd (exec_op x w)))"
  by (simp add: case_prod_beta)

lemma exec_ops_fst_Cons [simp]:
  "fst (exec_ops (x # xs) w) = fst (exec_op x w) # fst (exec_ops xs (snd (exec_op x w)))"
  by (simp add: case_prod_beta)

declare exec_ops.simps(2) [simp del]

lemma exec_op_heap_ok: "heap_ok w \<Longrightarrow> heap_ok (snd (exec_op x w))"
  by (cases x)
    (simp_all add: register_heap_ok unregister_heap_ok unregisterAll_heap_ok
      unregisterByPriority_heap_ok)

lemma exec_op_no_empty:
  "heap_ok w \<Longrightarrow> no_empty_bucket w \<Longrightarrow> no_empty_bucket (snd (exec_op x w))"
  by (cases x)
    (simp_all add: register_no_empty unregister_no_empty unregisterAll_no_empty
      unregisterByPriority_no_empty)

lemma exec_op_sorted:
  "heap_ok w \<Longrightarrow> sorted_buckets w \<Longrightarrow> sorted_buckets (snd (exec_op x w))"
  by (cases x)
    (simp_all add: register_sorted unregister_sorted unregisterAll_sorted
      unregisterByPriority_sorted)

lemma exec_ops_snd_append:
  "snd (exec_ops (xs @ ys) w) = snd (exec_ops ys (snd (exec_ops xs w)))"
  by (induction xs arbitrary: w) simp_all

lemma exec_ops_invariants:
  "heap_ok w \<Longrightarrow> no_empty_bucket w \<Longrightarrow> sorted_buckets w \<Longrightarrow>
   heap_ok (snd (exec_ops xs w)) \<and> no_empty_bucket (snd (exec_ops xs w))
   \<and> sorted_buckets (snd (exec_ops xs w))"
proof (induction xs arbitrary: w)
  case Nil then show ?case by simp
next
  case (Cons x xs)
  have "heap_ok (snd (exec_op x w))" "no_empty_bucket (snd (exec_op x w))"
    "sorted_buckets (snd (exec_op x w))"
    using Cons.prems by (simp_all add: exec_op_heap_ok exec_op_no_empty exec_op_sorted)
  from Cons.IH[OF this] show ?case by simp
qed

lemma new_EventManager_invariants:
  "heap_ok new_EventManager" "no_empty_bucket new_EventManager" "sorted_buckets new_EventManager"
  "ids_distinct new_EventManager" "ids_issued new_EventManager"
  by (simp_all add: new_EventManager_def heap_ok_def no_empty_bucket_def sorted_buckets_def
      ids_distinct_def ids_issued_def all_records_def)

section \<open>Ids\<close>

lemma all_records_keys:
  assumes "heap_ok w"
  shows "all_records w = concat (map (\<lambda>n. bucket n w) (map fst (listeners w)))"
proof -
  have "map (\<lambda>(n, a). arrays w a) (listeners w) = map (\<lambda>e. bucket (fst e) w) (listeners w)"
  proof (rule map_cong[OF refl])
    fix e assume e: "e \<in> set (listeners w)"
    obtain n a where na: "e = (n, a)" by (cases e)
    show "(case e of (n, a) \<Rightarrow> arrays w a) = bucket (fst e) w"
      using assms e na by (simp add: heap_ok_def bucket_def)
  qed
  then have "all_records w = concat (map (\<lambda>e. bucket (fst e) w) (listeners w))"
    unfolding all_records_def by (rule arg_cong)
  also have "\<dots> = concat (map (\<lambda>n. bucket n w) (map fst (listeners w)))"
    by (simp add: comp_def)
  finally show ?thesis .
qed

lemma bucket_absent: "n \<notin> fst ` set (listeners w) \<Longrightarrow> bucket n w = []"
  by (simp add: bucket_def map_of_eq_None_iff[THEN iffD2])

lemma in_all_records_iff:
  assumes "heap_ok w"
  shows "h \<in> set (all_records w) \<longleftrightarrow> (\<exists>n. h \<in> set (bucket n w))"
proof
  assume "h \<in> set (all_records w)"
  then show "\<exists>n. h \<in> set (bucket n w)"
    unfolding all_records_keys[OF assms] by auto
next
  assume "\<exists>n. h \<in> set (bucket n w)"
  then obtain n where n: "h \<in> set (bucket n w)" by blast
  then have "n \<in> fst ` set (listeners w)"
    using bucket_absent[of n w] by (cases "n \<in> fst ` set (listeners w)") auto
  with n show "h \<in> set (all_records w)"
    unfolding all_records_keys[OF assms] by auto
qed

lemma distinct_concat_keys:
  "distinct ks \<Longrightarrow>
   distinct (map f (concat (map g ks))) \<longleftrightarrow>
     (\<forall>k\<in>set ks. distinct (map f (g k)))
     \<and> (\<forall>k\<in>set ks. \<forall>l\<in>set ks. k \<noteq> l \<longrightarrow> (\<forall>x\<in>set (g k). \<forall>y\<in>set (g l). f x \<noteq> f y))"
proof (induction ks)
  case Nil then show ?case by simp
next
  case (Cons k ks)
  then have IH: "distinct (map f (concat (map g ks))) \<longleftrightarrow>
     (\<forall>k\<in>set ks. distinct (map f (g k)))
     \<and> (\<forall>k\<in>set ks. \<forall>l\<in>set ks. k \<noteq> l \<longrightarrow> (\<forall>x\<in>set (g k). \<forall>y\<in>set (g l). f x \<noteq> f y))"
    by simp
  have k: "k \<notin> set ks" using Cons.prems by simp
  have cross: "f ` set (g k) \<inter> f ` (\<Union>l\<in>set ks. set (g l)) = {} \<longleftrightarrow>
      (\<forall>l\<in>set ks. \<forall>x\<in>set (g k). \<forall>y\<in>set (g l). f x \<noteq> f y)"
    by (auto simp: image_iff)
  have cross2: "(\<forall>l\<in>set ks. \<forall>x\<in>set (g k). \<forall>y\<in>set (g l). f x \<noteq> f y) \<longleftrightarrow>
      (\<forall>l\<in>set ks. \<forall>x\<in>set (g l). \<forall>y\<in>set (g k). f x \<noteq> f y)"
    by metis
  have "distinct (map f (concat (map g (k # ks)))) \<longleftrightarrow>
      distinct (map f (g k)) \<and> distinct (map f (concat (map g ks)))
      \<and> f ` set (g k) \<inter> f ` (\<Union>l\<in>set ks. set (g l)) = {}"
    by simp
  also have "\<dots> \<longleftrightarrow> distinct (map f (g k))
      \<and> ((\<forall>k\<in>set ks. distinct (map f (g k)))
         \<and> (\<forall>k\<in>set ks. \<forall>l\<in>set ks. k \<noteq> l \<longrightarrow> (\<forall>x\<in>set (g k). \<forall>y\<in>set (g l). f x \<noteq> f y)))
      \<and> (\<forall>l\<in>set ks. \<forall>x\<in>set (g k). \<forall>y\<in>set (g l). f x \<noteq> f y)"
    unfolding IH cross ..
  also have "\<dots> \<longleftrightarrow> (\<forall>j\<in>set (k # ks). distinct (map f (g j)))
     \<and> (\<forall>j\<in>set (k # ks). \<forall>l\<in>set (k # ks). j \<noteq> l \<longrightarrow> (\<forall>x\<in>set (g j). \<forall>y\<in>set (g l). f x \<noteq> f y))"
    (is "?A \<longleftrightarrow> ?B")
  proof
    assume a: ?A
    then have c2: "\<forall>l\<in>set ks. \<forall>x\<in>set (g l). \<forall>y\<in>set (g k). f x \<noteq> f y"
      using cross2 by blast
    from a c2 show ?B by simp
  next
    assume b: ?B
    have "\<forall>l\<in>set ks. \<forall>x\<in>set (g k). \<forall>y\<in>set (g l). f x \<noteq> f y"
    proof (intro ballI)
      fix l x y assume "l \<in> set ks" "x \<in> set (g k)" "y \<in> set (g l)"
      moreover have "k \<noteq> l" using k \<open>l \<in> set ks\<close> by auto
      ultimately show "f x \<noteq> f y" using b by simp
    qed
    with b show ?A by simp
  qed
  finally show ?case .
qed

lemma digit_char_inj: "a < 10 \<Longrightarrow> b < 10 \<Longrightarrow> digit_char a = digit_char b \<Longrightarrow> a = b"
proof -
  assume a: "a < 10" and b: "b < 10" and e: "digit_char a = digit_char b"
  have d: "distinct ''0123456789''" by simp
  have "length ''0123456789'' = 10" by simp
  with a b d e show "a = b"
    unfolding digit_char_def by (metis nth_eq_iff_index_eq)
qed

lemma decimal_nonempty: "decimal n \<noteq> []"
  by (subst decimal.simps) simp

lemma decimal_inj: "decimal m = decimal n \<Longrightarrow> m = n"
proof (induction m arbitrary: n rule: decimal.induct)
  case (1 m)
  show ?case
  proof (cases "m < 10")
    case m: True
    show ?thesis
    proof (cases "n < 10")
      case True
      with m "1.prems" show ?thesis
        by (simp add: decimal.simps[of m] decimal.simps[of n] digit_char_inj)
    next
      case False
      with m "1.prems" decimal_nonempty[of "n div 10"] show ?thesis
        by (simp add: decimal.simps[of m] decimal.simps[of n])
    qed
  next
    case m: False
    show ?thesis
    proof (cases "n < 10")
      case True
      with m "1.prems" decimal_nonempty[of "m div 10"] show ?thesis
        by (simp add: decimal.simps[of m] decimal.simps[of n])
    next
      case False
      with m "1.prems" have e: "decimal (m div 10) = decimal (n div 10)"
        and d: "digit_char (m mod 10) = digit_char (n mod 10)"
        by (simp_all add: decimal.simps[of m] decimal.simps[of n])
      from "1.IH"[OF m e] have "m div 10 = n div 10" .
      moreover from d have "m mod 10 = n mod 10" by (intro digit_char_inj) simp_all
      ultimately show ?thesis by (metis div_mult_mod_eq)
    qed
  qed
qed

lemma handler_id_of_inj: "handler_id_of m = handler_id_of n \<longleftrightarrow> m = n"
  by (auto simp: handler_id_of_def dest: decimal_inj)

lemma ids_distinct_iff:
  assumes "heap_ok w"
  shows "ids_distinct w \<longleftrightarrow>
     (\<forall>n. distinct (map id' (bucket n w)))
     \<and> (\<forall>n m. n \<noteq> m \<longrightarrow> (\<forall>x\<in>set (bucket n w). \<forall>y\<in>set (bucket m w). id' x \<noteq> id' y))"
    (is "_ \<longleftrightarrow> ?R")
proof -
  let ?ks = "map fst (listeners w)"
  have d: "distinct ?ks" using assms by (simp add: heap_ok_def)
  have e: "\<And>n. n \<notin> set ?ks \<Longrightarrow> bucket n w = []"
    using bucket_absent[of _ w] by simp
  have "ids_distinct w \<longleftrightarrow>
     (\<forall>k\<in>set ?ks. distinct (map id' (bucket k w)))
     \<and> (\<forall>k\<in>set ?ks. \<forall>l\<in>set ?ks. k \<noteq> l \<longrightarrow>
           (\<forall>x\<in>set (bucket k w). \<forall>y\<in>set (bucket l w). id' x \<noteq> id' y))"
    (is "_ \<longleftrightarrow> ?L")
    unfolding ids_distinct_def all_records_keys[OF assms]
    by (rule distinct_concat_keys[OF d])
  also have "?L \<longleftrightarrow> ?R"
  proof
    assume l: ?L
    show ?R
    proof (intro conjI allI impI ballI)
      fix n show "distinct (map id' (bucket n w))"
        using l e[of n] by (cases "n \<in> set ?ks") auto
    next
      fix n m x y
      assume a: "n \<noteq> m" "x \<in> set (bucket n w)" "y \<in> set (bucket m w)"
      have "n \<in> set ?ks"
      proof (rule ccontr)
        assume "n \<notin> set ?ks"
        from e[OF this] a(2) show False by simp
      qed
      moreover have "m \<in> set ?ks"
      proof (rule ccontr)
        assume "m \<notin> set ?ks"
        from e[OF this] a(3) show False by simp
      qed
      ultimately show "id' x \<noteq> id' y" using l a by blast
    qed
  next
    assume ?R then show ?L by blast
  qed
  finally show ?thesis .
qed

lemma ids_issued_iff:
  assumes "heap_ok w"
  shows "ids_issued w \<longleftrightarrow>
     (\<forall>n. \<forall>h\<in>set (bucket n w). id' h \<in> handler_id_of ` {1..handlerCounter w})"
proof -
  have s: "set [1..<Suc (handlerCounter w)] = {1..handlerCounter w}" by auto
  have "ids_issued w \<longleftrightarrow> (\<forall>h\<in>set (all_records w). id' h \<in> handler_id_of ` {1..handlerCounter w})"
    unfolding ids_issued_def list_all_iff set_map s ..
  also have "\<dots> \<longleftrightarrow> (\<forall>n. \<forall>h\<in>set (bucket n w). id' h \<in> handler_id_of ` {1..handlerCounter w})"
    using in_all_records_iff[OF assms] by blast
  finally show ?thesis .
qed

lemma distinct_map_insort_key:
  "distinct (map g (insort_key f x xs)) \<longleftrightarrow> g x \<notin> g ` set xs \<and> distinct (map g xs)"
  by (induction xs) (auto simp: set_insort_key)

lemma distinct_map_sort_key: "distinct (map g (sort_key f xs)) \<longleftrightarrow> distinct (map g xs)"
  by (induction xs) (simp_all add: distinct_map_insort_key)

lemma filtered_ids_distinct:
  assumes "heap_ok w" "heap_ok w'" "ids_distinct w"
    and "\<And>n. \<exists>Q. bucket n w' = filter Q (bucket n w)"
  shows "ids_distinct w'"
proof -
  have sub: "\<And>n. set (bucket n w') \<subseteq> set (bucket n w)"
    using assms(4) by (metis filter_is_subset)
  have dis: "\<And>n. distinct (map id' (bucket n w'))"
    using assms(4) assms(3) ids_distinct_iff[OF assms(1)] by (metis distinct_map_filter)
  show ?thesis
    unfolding ids_distinct_iff[OF assms(2)]
  proof (intro conjI allI impI ballI)
    fix n show "distinct (map id' (bucket n w'))" by (rule dis)
  next
    fix n m x y
    assume "n \<noteq> m" "x \<in> set (bucket n w')" "y \<in> set (bucket m w')"
    then have "n \<noteq> m" "x \<in> set (bucket n w)" "y \<in> set (bucket m w)"
      using sub by auto
    then show "id' x \<noteq> id' y"
      using assms(3) ids_distinct_iff[OF assms(1)] by blast
  qed
qed

lemma filtered_ids_issued:
  assumes "heap_ok w" "heap_ok w'" "ids_issued w" "handlerCounter w' = handlerCounter w"
    and "\<And>n. \<exists>Q. bucket n w' = filter Q (bucket n w)"
  shows "ids_issued w'"
proof -
  have sub: "\<And>n. set (bucket n w') \<subseteq> set (bucket n w)"
    using assms(5) by (metis filter_is_subset)
  show ?thesis
    unfolding ids_issued_iff[OF assms(2)] assms(4)
    using assms(3) sub unfolding ids_issued_iff[OF assms(1)] by blast
qed

lemma unregisterAll_counter: "handlerCounter (unregisterAll c w) = handlerCounter w"
  by (cases c) (simp_all add: unregisterAll_def)

lemma unregisterByPriority_counter: "handlerCounter (unregisterByPriority t p w) = handlerCounter w"
  by (simp add: unregisterByPriority_def Let_def split: option.splits)

lemma removed_at_counter: "handlerCounter (removed_at n a k w) = handlerCounter w"
  by (simp add: removed_at_def)

lemma unregister_counter: "handlerCounter (snd (unregister i w)) = handlerCounter w"
proof (cases "i \<in> id' ` set (all_records w)")
  case True
  from True obtain n a k where "unregister i w = (True, removed_at n a k w)"
    by (rule unregister_present)
  then show ?thesis by (simp add: removed_at_counter)
next
  case False
  then show ?thesis by (simp add: unregister_absent)
qed

lemma unregisterAll_bucket_filter:
  "\<exists>Q. bucket n (unregisterAll c w) = filter Q (bucket n w)"
proof (cases c)
  case None
  have "bucket n (unregisterAll None w) = filter (\<lambda>h. False) (bucket n w)"
    by (simp add: unregisterAll_def bucket_def)
  with None show ?thesis by blast
next
  case (Some t)
  have "bucket n (unregisterAll (Some t) w) = filter (\<lambda>h. n \<noteq> t) (bucket n w)"
    by (simp add: unregisterAll_bucket)
  with Some show ?thesis by blast
qed

lemma unregisterByPriority_bucket_filter:
  assumes "heap_ok w"
  shows "\<exists>Q. bucket n (unregisterByPriority t p w) = filter Q (bucket n w)"
proof -
  have "bucket n (unregisterByPriority t p w) = filter (\<lambda>h. n = t \<longrightarrow> priority h \<noteq> p) (bucket n w)"
    by (simp add: unregisterByPriority_bucket[OF assms])
  then show ?thesis by blast
qed

lemma unregister_bucket_filter:
  assumes "heap_ok w" "ids_distinct w"
  shows "bucket m (snd (unregister i w)) = filter (\<lambda>h. id' h \<noteq> i) (bucket m w)"
proof (cases "i \<in> id' ` set (all_records w)")
  case True
  from True obtain n a k where na: "(n, a) \<in> set (listeners w)"
    and k: "findIndex (\<lambda>h. id' h = i) (arrays w a) = Some k"
    and u: "unregister i w = (True, removed_at n a k w)"
    by (rule unregister_present)
  show ?thesis using removed_at_bucket_filter[OF assms na k] u by simp
next
  case False
  then have "\<forall>h\<in>set (bucket m w). id' h \<noteq> i"
    using in_all_records_iff[OF assms(1)] by blast
  then have "filter (\<lambda>h. id' h \<noteq> i) (bucket m w) = bucket m w"
    by (simp add: filter_id_conv)
  with False show ?thesis by (simp add: unregister_absent)
qed

lemma register_ids:
  assumes "heap_ok w" "ids_distinct w" "ids_issued w" "handlerCounter w < 2 ^ 53"
  shows "ids_distinct (snd (register t h p w)) \<and> ids_issued (snd (register t h p w))"
proof -
  let ?w' = "snd (register t h p w)"
  let ?c = "handlerCounter w"
  let ?r = "\<lparr>handler = h, priority = p, id' = handler_id_of (Suc ?c)\<rparr>"
  have ok': "heap_ok ?w'" using assms(1) by (rule register_heap_ok)
  have inc: "increment ?c = Suc ?c" using assms(4) by (simp add: increment_def)
  have c': "handlerCounter ?w' = Suc ?c" by (simp add: register_counter inc)
  have b: "\<And>n. bucket n ?w' = (if n = t then sort_by_priority (bucket t w @ [?r]) else bucket n w)"
    by (simp add: register_bucket[OF assms(1)] inc)
  have old: "\<And>n x. x \<in> set (bucket n w) \<Longrightarrow> id' x \<in> handler_id_of ` {1..?c}"
    using assms(3) ids_issued_iff[OF assms(1)] by blast
  have new: "\<And>n x. x \<in> set (bucket n w) \<Longrightarrow> id' x \<noteq> handler_id_of (Suc ?c)"
  proof
    fix n x assume "x \<in> set (bucket n w)" "id' x = handler_id_of (Suc ?c)"
    with old[of x n] have "handler_id_of (Suc ?c) \<in> handler_id_of ` {1..?c}" by simp
    then show False by (auto simp: handler_id_of_inj)
  qed
  have D: "\<And>n. distinct (map id' (bucket n w))"
    and X: "\<And>n m x y. n \<noteq> m \<Longrightarrow> x \<in> set (bucket n w) \<Longrightarrow> y \<in> set (bucket m w) \<Longrightarrow> id' x \<noteq> id' y"
    using assms(2) ids_distinct_iff[OF assms(1)] by blast+
  have st: "set (bucket t ?w') = insert ?r (set (bucket t w))"
    by (simp add: b sort_by_priority_set)
  have "ids_distinct ?w'"
    unfolding ids_distinct_iff[OF ok']
  proof (intro conjI allI impI ballI)
    fix n show "distinct (map id' (bucket n ?w'))"
    proof (cases "n = t")
      case True
      have "handler_id_of (Suc ?c) \<notin> id' ` set (bucket t w)"
      proof
        assume "handler_id_of (Suc ?c) \<in> id' ` set (bucket t w)"
        then obtain x where x: "x \<in> set (bucket t w)" and e: "handler_id_of (Suc ?c) = id' x"
          by (rule imageE)
        from new[OF x] e show False by simp
      qed
      then have "distinct (map id' (bucket t w @ [?r]))"
        using D[of t] by simp
      then show ?thesis using True
        by (simp add: b sort_by_priority_def distinct_map_sort_key)
    next
      case False then show ?thesis by (simp add: b D)
    qed
  next
    fix n m x y
    assume nm: "n \<noteq> m" and x: "x \<in> set (bucket n ?w')" and y: "y \<in> set (bucket m ?w')"
    show "id' x \<noteq> id' y"
    proof (cases "n = t")
      case True
      then have y': "y \<in> set (bucket m w)" using nm y by (simp add: b)
      from x True have "x = ?r \<or> x \<in> set (bucket t w)" using st by auto
      then show ?thesis
      proof
        assume "x = ?r" then show ?thesis using new[OF y'] by auto
      next
        assume "x \<in> set (bucket t w)" then show ?thesis using X[of t m x y] nm True y' by simp
      qed
    next
      case False
      then have x': "x \<in> set (bucket n w)" using x by (simp add: b)
      show ?thesis
      proof (cases "m = t")
        case True
        from y True have "y = ?r \<or> y \<in> set (bucket t w)" using st by auto
        then show ?thesis
        proof
          assume "y = ?r" then show ?thesis using new[OF x'] by auto
        next
          assume "y \<in> set (bucket t w)" then show ?thesis using X[of n t x y] nm True x' by simp
        qed
      next
        case False
        then have "y \<in> set (bucket m w)" using y by (simp add: b)
        then show ?thesis using X[OF nm x'] by simp
      qed
    qed
  qed
  moreover have "ids_issued ?w'"
    unfolding ids_issued_iff[OF ok'] c'
  proof (intro allI ballI)
    fix n x assume x: "x \<in> set (bucket n ?w')"
    have "x = ?r \<or> (\<exists>m. x \<in> set (bucket m w))"
      using x st by (cases "n = t") (auto simp: b)
    then show "id' x \<in> handler_id_of ` {1..Suc ?c}"
    proof
      assume "x = ?r" then show ?thesis by simp
    next
      assume "\<exists>m. x \<in> set (bucket m w)"
      then obtain m where "x \<in> set (bucket m w)" by blast
      from old[OF this] show ?thesis by auto
    qed
  qed
  ultimately show ?thesis ..
qed

lemmas op_counter =
  register_counter unregister_counter unregisterAll_counter unregisterByPriority_counter

lemma exec_op_ids:
  assumes "heap_ok w" "ids_distinct w" "ids_issued w"
    and "(case x of Register t h p \<Rightarrow> handlerCounter w < 2 ^ 53 | _ \<Rightarrow> True)"
  shows "ids_distinct (snd (exec_op x w)) \<and> ids_issued (snd (exec_op x w))"
proof (cases x)
  case (Register t h p)
  then show ?thesis using register_ids[OF assms(1-3), of t h p] assms(4)
    by simp
next
  case (Unregister i)
  have ok: "heap_ok (snd (unregister i w))" using assms(1) by (rule unregister_heap_ok)
  have f: "\<And>n. \<exists>Q. bucket n (snd (unregister i w)) = filter Q (bucket n w)"
    using unregister_bucket_filter[OF assms(1,2)] by blast
  show ?thesis
    using filtered_ids_distinct[OF assms(1) ok assms(2) f]
      filtered_ids_issued[OF assms(1) ok assms(3) unregister_counter f] Unregister
    by simp
next
  case (UnregisterAll c)
  have ok: "heap_ok (unregisterAll c w)" using assms(1) by (rule unregisterAll_heap_ok)
  have f: "\<And>n. \<exists>Q. bucket n (unregisterAll c w) = filter Q (bucket n w)"
    by (rule unregisterAll_bucket_filter)
  show ?thesis
    using filtered_ids_distinct[OF assms(1) ok assms(2) f]
      filtered_ids_issued[OF assms(1) ok assms(3) unregisterAll_counter f] UnregisterAll
    by simp
next
  case (UnregisterByPriority t p)
  have ok: "heap_ok (unregisterByPriority t p w)" using assms(1) by (rule unregisterByPriority_heap_ok)
  have f: "\<And>n. \<exists>Q. bucket n (unregisterByPriority t p w) = filter Q (bucket n w)"
    using assms(1) by (rule unregisterByPriority_bucket_filter)
  show ?thesis
    using filtered_ids_distinct[OF assms(1) ok assms(2) f]
      filtered_ids_issued[OF assms(1) ok assms(3) unregisterByPriority_counter f] UnregisterByPriority
    by simp
qed

lemma exec_ops_counter_le:
  "handlerCounter w + registrations xs \<le> 2 ^ 53 \<Longrightarrow>
   handlerCounter (snd (exec_ops xs w)) = handlerCounter w + registrations xs"
proof (induction xs arbitrary: w)
  case Nil then show ?case by simp
next
  case (Cons x xs)
  show ?case
  proof (cases x)
    case (Register t h p)
    have c: "handlerCounter (snd (exec_op x w)) = Suc (handlerCounter w)"
      using Cons.prems Register by (simp add: op_counter increment_def)
    have "handlerCounter (snd (exec_ops xs (snd (exec_op x w)))) =
        handlerCounter (snd (exec_op x w)) + registrations xs"
      by (rule Cons.IH) (use Cons.prems Register c in simp)
    then show ?thesis using Register c by simp
  next
    case (Unregister i)
    have c: "handlerCounter (snd (exec_op x w)) = handlerCounter w"
      using Unregister by (simp add: op_counter)
    have "handlerCounter (snd (exec_ops xs (snd (exec_op x w)))) =
        handlerCounter (snd (exec_op x w)) + registrations xs"
      by (rule Cons.IH) (use Cons.prems Unregister c in simp)
    then show ?thesis using Unregister c by simp
  next
    case (UnregisterAll cl)
    have c: "handlerCounter (snd (exec_op x w)) = handlerCounter w"
      using UnregisterAll by (simp add: op_counter)
    have "handlerCounter (snd (exec_ops xs (snd (exec_op x w)))) =
        handlerCounter (snd (exec_op x w)) + registrations xs"
      by (rule Cons.IH) (use Cons.prems UnregisterAll c in simp)
    then show ?thesis using UnregisterAll c by simp
  next
    case (UnregisterByPriority t p)
    have c: "handlerCounter (snd (exec_op x w)) = handlerCounter w"
      using UnregisterByPriority by (simp add: op_counter)
    have "handlerCounter (snd (exec_ops xs (snd (exec_op x w)))) =
        handlerCounter (snd (exec_op x w)) + registrations xs"
      by (rule Cons.IH) (use Cons.prems UnregisterByPriority c in simp)
    then show ?thesis using UnregisterByPriority c by simp
  qed
qed

lemma exec_ops_ids:
  assumes "heap_ok w" "ids_distinct w" "ids_issued w"
    and "handlerCounter w + registrations xs \<le> 2 ^ 53"
  shows "ids_distinct (snd (exec_ops xs w)) \<and> ids_issued (snd (exec_ops xs w))
     \<and> returned_ids (fst (exec_ops xs w)) =
         map handler_id_of [Suc (handlerCounter w)..<Suc (handlerCounter w + registrations xs)]"
  using assms
proof (induction xs arbitrary: w)
  case Nil then show ?case by simp
next
  case (Cons x xs)
  let ?w1 = "snd (exec_op x w)"
  have pre: "(case x of Register t h p \<Rightarrow> handlerCounter w < 2 ^ 53 | _ \<Rightarrow> True)"
    using Cons.prems(4) by (cases x) simp_all
  have ok1: "heap_ok ?w1" using Cons.prems(1) by (rule exec_op_heap_ok)
  have ids1: "ids_distinct ?w1" "ids_issued ?w1"
    using exec_op_ids[OF Cons.prems(1-3) pre] by simp_all
  have c1: "handlerCounter ?w1 + registrations xs = handlerCounter w + registrations (x # xs)"
    using Cons.prems(4) by (cases x) (simp_all add: op_counter increment_def)
  have IH: "ids_distinct (snd (exec_ops xs ?w1)) \<and> ids_issued (snd (exec_ops xs ?w1))
     \<and> returned_ids (fst (exec_ops xs ?w1)) =
         map handler_id_of [Suc (handlerCounter ?w1)..<Suc (handlerCounter ?w1 + registrations xs)]"
    by (rule Cons.IH[OF ok1 ids1]) (use c1 Cons.prems(4) in simp)
  have r: "returned_ids (fst (exec_op x w) # rs) =
      (case x of Register t h p \<Rightarrow> handler_id_of (Suc (handlerCounter w)) # returned_ids rs
       | _ \<Rightarrow> returned_ids rs)" for rs
    using Cons.prems(4)
    by (cases x) (simp_all add: register_fst increment_def)
  show ?case
  proof (cases x)
    case (Register t h p)
    have "handlerCounter ?w1 = Suc (handlerCounter w)"
      using Register Cons.prems(4) by (simp add: op_counter increment_def)
    then show ?thesis
      using IH r Register
      by (simp add: exec_ops_snd_Cons exec_ops_fst_Cons upt_conv_Cons del: upt_Suc)
  next
    case (Unregister i)
    have "handlerCounter ?w1 = handlerCounter w" using Unregister by (simp add: op_counter)
    then show ?thesis
      using IH r Unregister
      by (simp add: exec_ops_snd_Cons exec_ops_fst_Cons del: upt_Suc)
  next
    case (UnregisterAll c)
    have "handlerCounter ?w1 = handlerCounter w" using UnregisterAll by (simp add: op_counter)
    then show ?thesis
      using IH r UnregisterAll
      by (simp add: exec_ops_snd_Cons exec_ops_fst_Cons del: upt_Suc)
  next
    case (UnregisterByPriority t p)
    have "handlerCounter ?w1 = handlerCounter w" using UnregisterByPriority by (simp add: op_counter)
    then show ?thesis
      using IH r UnregisterByPriority
      by (simp add: exec_ops_snd_Cons exec_ops_fst_Cons del: upt_Suc)
  qed
qed

section \<open>The loop of \<open>emit\<close> and the snapshot\<close>

lemma register_absent:
  assumes "map_of (listeners w) t = None"
  shows "snd (register t h p w) =
     w\<lparr>listeners := listeners w @ [(t, fresh w)],
       arrays := (arrays w)(fresh w := sort_by_priority
          [\<lparr>handler = h, priority = p, id' = handler_id_of (increment (handlerCounter w))\<rparr>]),
       fresh := Suc (fresh w),
       handlerCounter := increment (handlerCounter w)\<rparr>"
proof -
  have "map_of (listeners w @ [(t, fresh w)]) t = Some (fresh w)"
    using assms by (simp add: map_add_Some_iff)
  then show ?thesis
    using assms by (simp add: register_def Let_def update_absent)
qed

lemma register_present:
  assumes "map_of (listeners w) t = Some b"
  shows "snd (register t h p w) =
     w\<lparr>handlerCounter := increment (handlerCounter w),
       arrays := (arrays w)(b := sort_by_priority (arrays w b @
          [\<lparr>handler = h, priority = p, id' = handler_id_of (increment (handlerCounter w))\<rparr>]))\<rparr>"
  using assms by (simp add: register_def Let_def)

lemma register_frame:
  assumes "heap_ok w" "unshared a w"
  shows "unshared a (snd (register t h p w)) \<and> arrays (snd (register t h p w)) a = arrays w a"
proof (cases "map_of (listeners w) t")
  case None
  show ?thesis
    unfolding register_absent[OF None] using assms by (auto simp: unshared_def)
next
  case (Some b)
  then have "b \<in> snd ` set (listeners w)" by (rule map_of_SomeD_snd)
  then have "b \<noteq> a" using assms(2) by (auto simp: unshared_def)
  then show ?thesis
    unfolding register_present[OF Some] using assms by (simp add: unshared_def)
qed

lemma removed_at_frame:
  assumes "unshared a w" "(n, b) \<in> set (listeners w)"
  shows "unshared a (removed_at n b k w) \<and> arrays (removed_at n b k w) a = arrays w a"
proof -
  have "b \<noteq> a" using assms by (force simp: unshared_def)
  moreover have "snd ` set (AList.delete n (listeners w)) \<subseteq> snd ` set (listeners w)"
    using set_delete_subset[of n "listeners w"] by auto
  ultimately show ?thesis
    using assms(1) by (auto simp: removed_at_def unshared_def)
qed

lemma unregister_frame:
  assumes "unshared a w"
  shows "unshared a (snd (unregister i w)) \<and> arrays (snd (unregister i w)) a = arrays w a"
proof (cases "i \<in> id' ` set (all_records w)")
  case True
  from True obtain n b k where nb: "(n, b) \<in> set (listeners w)"
    and u: "unregister i w = (True, removed_at n b k w)"
    by (rule unregister_present)
  show ?thesis using removed_at_frame[OF assms nb, of k] u by simp
next
  case False
  then show ?thesis using assms by (simp add: unregister_absent)
qed

lemma unregisterAll_frame:
  assumes "unshared a w"
  shows "unshared a (unregisterAll c w) \<and> arrays (unregisterAll c w) a = arrays w a"
proof -
  have "snd ` set (AList.delete n (listeners w)) \<subseteq> snd ` set (listeners w)" for n
    using set_delete_subset[of n "listeners w"] by auto
  then show ?thesis
    using assms by (cases c) (auto simp: unregisterAll_def unshared_def)
qed

lemma unregisterByPriority_frame:
  assumes "unshared a w"
  shows "unshared a (unregisterByPriority t p w) \<and> arrays (unregisterByPriority t p w) a = arrays w a"
proof (cases "map_of (listeners w) t")
  case None
  then show ?thesis using assms by (simp add: unregisterByPriority_def)
next
  case (Some b)
  have d: "snd ` set (AList.delete t (listeners w)) \<subseteq> snd ` set (listeners w)"
    using set_delete_subset[of t "listeners w"] by auto
  have u: "snd ` set (AList.update t (fresh w) (listeners w)) \<subseteq> insert (fresh w) (snd ` set (listeners w))"
    using snd_update_subset[of t "fresh w" "listeners w"] by simp
  have af: "a \<noteq> fresh w" using assms by (simp add: unshared_def)
  show ?thesis
    using assms Some d u af
    by (auto simp: unregisterByPriority_def Let_def unshared_def)
qed

lemma exec_op_frame:
  assumes "heap_ok w" "unshared a w"
  shows "unshared a (snd (exec_op x w)) \<and> arrays (snd (exec_op x w)) a = arrays w a"
  using assms
  by (cases x)
    (simp_all add: register_frame unregister_frame unregisterAll_frame unregisterByPriority_frame)

lemma run_action_frame:
  assumes "heap_ok w" "unshared a w"
  shows "heap_ok (snd (run_action e x w)) \<and> unshared a (snd (run_action e x w))
     \<and> arrays (snd (run_action e x w)) a = arrays w a"
proof (cases x)
  case (Call y)
  then show ?thesis using assms exec_op_frame[OF assms, of y] exec_op_heap_ok[OF assms(1), of y]
    by simp
next
  case (Cancel r)
  then show ?thesis using assms
    by (cases "events w e") (simp_all add: heap_ok_def unshared_def)
qed (use assms in \<open>simp_all add: heap_ok_def unshared_def\<close>)

lemma run_handler_frame:
  "heap_ok w \<Longrightarrow> unshared a w \<Longrightarrow>
   heap_ok (snd (run_handler e as w)) \<and> unshared a (snd (run_handler e as w))
     \<and> arrays (snd (run_handler e as w)) a = arrays w a"
proof (induction as arbitrary: w)
  case Nil then show ?case by simp
next
  case (Cons x as)
  note f = run_action_frame[OF Cons.prems, of e x]
  show ?case
  proof (cases "run_action e x w")
    case (Pair r w')
    show ?thesis
    proof (cases r)
      case None
      with Pair f Cons.IH[of w'] show ?thesis by simp
    next
      case (Some err)
      with Pair f show ?thesis by simp
    qed
  qed
qed


lemma dispatch_eq_snapshot:
  assumes "heap_ok w" "unshared a w"
  shows "dispatch e a i n ds w = Some (dispatch_snapshot e (drop i (arrays w a)) n ds w)"
  using assms
proof (induction k \<equiv> "length (arrays w a) - i" arbitrary: i n ds w)
  case 0
  then have "\<not> i < length (arrays w a)" by simp
  then show ?case by (subst dispatch.simps) simp
next
  case (Suc k)
  then have il: "i < length (arrays w a)" by simp
  then have dr: "drop i (arrays w a) = arrays w a ! i # drop (Suc i) (arrays w a)"
    by (simp add: Cons_nth_drop_Suc)
  let ?h = "arrays w a ! i"
  show ?case
  proof (cases "cancelled_instance (events w e)")
    case True
    then show ?thesis using il dr by (subst dispatch.simps) simp
  next
    case False
    obtain r w' where rh: "run_handler e (handler ?h) w = (r, w')"
      by (cases "run_handler e (handler ?h) w")
    have fr: "heap_ok w'" "unshared a w'" "arrays w' a = arrays w a"
      using run_handler_frame[OF Suc.prems, of e "handler ?h"] rh by simp_all
    show ?thesis
    proof (cases r)
      case (Some err)
      then show ?thesis using il dr False rh by (subst dispatch.simps) simp
    next
      case None
      have k: "k = length (arrays w' a) - Suc i" using Suc.hyps(2) fr(3) by simp
      have "dispatch e a (Suc i) (Suc n)
              (ds @ [\<lparr>priority_d = priority ?h, handlerId = id' ?h,
                        executionTime_d = clock w' - clock w\<rparr>]) w'
          = Some (dispatch_snapshot e (drop (Suc i) (arrays w' a)) (Suc n)
              (ds @ [\<lparr>priority_d = priority ?h, handlerId = id' ?h,
                        executionTime_d = clock w' - clock w\<rparr>]) w')"
        by (rule Suc.hyps(1)[OF k fr(1,2)])
      then show ?thesis
        using il dr False rh None fr(3) by (subst dispatch.simps) (simp add: Let_def)
    qed
  qed
qed

lemma snapshot_frame:
  assumes "heap_ok w"
  shows "heap_ok (snd (snapshot t w))" "unshared (fst (snapshot t w)) (snd (snapshot t w))"
    "arrays (snd (snapshot t w)) (fst (snapshot t w)) = sort_by_priority (bucket t w)"
  using assms by (auto simp: snapshot_def heap_ok_def unshared_def list_all_iff)

lemma emit_eq_snapshot:
  assumes "heap_ok w"
  shows "emit e w = Some (emit_snapshot e w)"
proof -
  let ?t = "constructor_name (events w e)"
  obtain a w1 where s: "snapshot ?t w = (a, w1)" by (cases "snapshot ?t w")
  have f: "heap_ok w1" "unshared a w1" "arrays w1 a = sort_by_priority (bucket ?t w)"
    using snapshot_frame[OF assms, of ?t] s by simp_all
  have d: "dispatch e a 0 0 [] w1 = Some (dispatch_snapshot e (sort_by_priority (bucket ?t w)) 0 [] w1)"
    using dispatch_eq_snapshot[OF f(1,2), of e 0 0 "[]"] f(3) by simp
  show ?thesis
    using s d
    by (simp add: emit_def emit_snapshot_def Let_def split: prod.splits sum.splits)
qed

lemma removed_at_events: "events (removed_at n a k w) = events w"
  by (simp add: removed_at_def)

lemma exec_op_events: "events (snd (exec_op x w)) = events w"
proof (cases x)
  case (Register t h p)
  then show ?thesis by (simp add: register_def Let_def split: option.splits)
next
  case (Unregister i)
  show ?thesis
  proof (cases "i \<in> id' ` set (all_records w)")
    case True
    from True obtain n a k where "unregister i w = (True, removed_at n a k w)"
      by (rule unregister_present)
    with Unregister show ?thesis by (simp add: removed_at_events)
  next
    case False
    with Unregister show ?thesis by (simp add: unregister_absent)
  qed
next
  case (UnregisterAll c)
  then show ?thesis by (cases c) (simp_all add: unregisterAll_def)
next
  case (UnregisterByPriority t p)
  then show ?thesis by (simp add: unregisterByPriority_def Let_def split: option.splits)
qed

lemma run_handler_append:
  "run_handler e (xs @ ys) w =
     (case run_handler e xs w of
        (Some err, w') \<Rightarrow> (Some err, w')
      | (None, w') \<Rightarrow> run_handler e ys w')"
  by (induction xs arbitrary: w) (auto split: prod.splits option.splits)

lemma run_action_cancelled:
  "cancelled_instance (events w e) \<Longrightarrow> cancelled_instance (events (snd (run_action e x w)) e)"
  by (cases x; cases "events w e")
    (simp_all add: exec_op_events isCancelled_def cancel_def)

lemma run_handler_cancelled:
  "cancelled_instance (events w e) \<Longrightarrow> cancelled_instance (events (snd (run_handler e as w)) e)"
proof (induction as arbitrary: w)
  case Nil then show ?case by simp
next
  case (Cons x as)
  note c = run_action_cancelled[OF Cons.prems, of x]
  show ?case
  proof (cases "run_action e x w")
    case (Pair r w')
    with c Cons.IH[of w'] show ?thesis by (cases r) simp_all
  qed
qed

lemma run_handler_no_cancel:
  "\<not> list_ex is_Cancel as \<Longrightarrow> events (snd (run_handler e as w)) = events w"
proof (induction as arbitrary: w)
  case Nil then show ?case by simp
next
  case (Cons x as)
  then have x: "\<not> is_Cancel x" and as: "\<not> list_ex is_Cancel as" by simp_all
  have ev: "events (snd (run_action e x w)) = events w"
    using x by (cases x) (simp_all add: exec_op_events)
  show ?case
  proof (cases "run_action e x w")
    case (Pair r w')
    with ev Cons.IH[OF as, of w'] show ?thesis by (cases r) simp_all
  qed
qed

lemma dispatch_snapshot_prefix:
  assumes "run_handler e (concat (map handler pre)) w = (None, w1)"
    and "\<not> cancelled_instance (events w1 e)"
  shows "\<exists>ds'. map handlerId ds' = map id' pre \<and> map priority_d ds' = map priority pre
     \<and> (\<forall>rest n ds. dispatch_snapshot e (pre @ rest) n ds w
            = dispatch_snapshot e rest (n + length pre) (ds @ ds') w1)"
  using assms
proof (induction pre arbitrary: w)
  case Nil
  then show ?case by simp
next
  case (Cons h pre)
  obtain r w' where rh: "run_handler e (handler h) w = (r, w')"
    by (cases "run_handler e (handler h) w")
  have r: "r = None" and rest: "run_handler e (concat (map handler pre)) w' = (None, w1)"
    using Cons.prems(1) rh by (auto simp: run_handler_append split: option.splits)
  have nc: "\<not> cancelled_instance (events w e)"
  proof
    assume c: "cancelled_instance (events w e)"
    have "cancelled_instance (events (snd (run_handler e (concat (map handler (h # pre))) w)) e)"
      using c by (rule run_handler_cancelled)
    with Cons.prems show False by simp
  qed
  from Cons.IH[OF rest Cons.prems(2)] obtain ds' where
    ds': "map handlerId ds' = map id' pre" "map priority_d ds' = map priority pre"
      "\<And>rest n ds. dispatch_snapshot e (pre @ rest) n ds w'
            = dispatch_snapshot e rest (n + length pre) (ds @ ds') w1"
    by blast
  let ?d = "\<lparr>priority_d = priority h, handlerId = id' h, executionTime_d = clock w' - clock w\<rparr>"
  have "map handlerId (?d # ds') = map id' (h # pre)" "map priority_d (?d # ds') = map priority (h # pre)"
    using ds'(1,2) by simp_all
  moreover have "dispatch_snapshot e ((h # pre) @ rest) n ds w
            = dispatch_snapshot e rest (n + length (h # pre)) (ds @ (?d # ds')) w1" for rest n ds
    using nc rh r ds'(3)[of rest "Suc n" "ds @ [?d]"] by simp
  ultimately show ?case by blast
qed

lemma dispatch_snapshot_result:
  assumes "dispatch_snapshot e hs n ds w = (Inr (n', ds'), w')"
  shows "\<exists>k\<le>length hs. n' = n + k
     \<and> map handlerId ds' = map handlerId ds @ map id' (take k hs)
     \<and> map priority_d ds' = map priority_d ds @ map priority (take k hs)
     \<and> (k < length hs \<longrightarrow> cancelled_instance (events w' e))"
  using assms
proof (induction hs arbitrary: n ds w)
  case Nil
  then show ?case by simp
next
  case (Cons h hs)
  show ?case
  proof (cases "cancelled_instance (events w e)")
    case True
    with Cons.prems have "n' = n" "ds' = ds" "w' = w" by simp_all
    with True show ?thesis by (intro exI[of _ 0]) simp
  next
    case False
    obtain r w1 where rh: "run_handler e (handler h) w = (r, w1)"
      by (cases "run_handler e (handler h) w")
    let ?d = "\<lparr>priority_d = priority h, handlerId = id' h, executionTime_d = clock w1 - clock w\<rparr>"
    from Cons.prems False rh have r: "r = None"
      and rec: "dispatch_snapshot e hs (Suc n) (ds @ [?d]) w1 = (Inr (n', ds'), w')"
      by (auto split: option.splits)
    from Cons.IH[OF rec] obtain k where k: "k \<le> length hs" "n' = Suc n + k"
      "map handlerId ds' = map handlerId (ds @ [?d]) @ map id' (take k hs)"
      "map priority_d ds' = map priority_d (ds @ [?d]) @ map priority (take k hs)"
      "k < length hs \<longrightarrow> cancelled_instance (events w' e)"
      by blast
    then show ?thesis by (intro exI[of _ "Suc k"]) simp
  qed
qed

section \<open>The invariants hold in every reachable state\<close>

text \<open>
  The claims below are stated for states with a well-formed store, some of them for
  states whose arrays are sorted. These are no restrictions: a new manager has both
  properties (\<open>new_EventManager_invariants\<close>), every operation of the registry keeps
  them (\<open>exec_ops_invariants\<close>), and so does every emission, whatever its handlers do.
\<close>

lemma run_action_invariants:
  assumes "heap_ok w" "no_empty_bucket w" "sorted_buckets w"
  shows "heap_ok (snd (run_action e x w)) \<and> no_empty_bucket (snd (run_action e x w))
     \<and> sorted_buckets (snd (run_action e x w))"
proof (cases x)
  case (Call y)
  then show ?thesis
    using assms by (simp add: exec_op_heap_ok exec_op_no_empty exec_op_sorted)
next
  case (Cancel r)
  then show ?thesis using assms
    by (cases "events w e") (simp_all add: heap_ok_def no_empty_bucket_def sorted_buckets_def)
qed (use assms in \<open>simp_all add: heap_ok_def no_empty_bucket_def sorted_buckets_def\<close>)

lemma run_handler_invariants:
  "heap_ok w \<Longrightarrow> no_empty_bucket w \<Longrightarrow> sorted_buckets w \<Longrightarrow>
   heap_ok (snd (run_handler e as w)) \<and> no_empty_bucket (snd (run_handler e as w))
     \<and> sorted_buckets (snd (run_handler e as w))"
proof (induction as arbitrary: w)
  case Nil then show ?case by simp
next
  case (Cons x as)
  note f = run_action_invariants[OF Cons.prems, of e x]
  show ?case
  proof (cases "run_action e x w")
    case (Pair r w')
    show ?thesis
    proof (cases r)
      case None
      with Pair f Cons.IH[of w'] show ?thesis by simp
    next
      case (Some err)
      with Pair f show ?thesis by simp
    qed
  qed
qed

lemma dispatch_snapshot_invariants:
  "heap_ok w \<Longrightarrow> no_empty_bucket w \<Longrightarrow> sorted_buckets w \<Longrightarrow>
   heap_ok (snd (dispatch_snapshot e hs n ds w))
     \<and> no_empty_bucket (snd (dispatch_snapshot e hs n ds w))
     \<and> sorted_buckets (snd (dispatch_snapshot e hs n ds w))"
proof (induction hs arbitrary: n ds w)
  case Nil then show ?case by simp
next
  case (Cons h hs)
  note f = run_handler_invariants[OF Cons.prems, of e "handler h"]
  show ?case
  proof (cases "run_handler e (handler h) w")
    case (Pair r w')
    show ?thesis
    proof (cases r)
      case None
      with Pair f Cons.IH[of w'] Cons.prems show ?thesis by simp
    next
      case (Some err)
      with Pair f Cons.prems show ?thesis by simp
    qed
  qed
qed

lemma snapshot_invariants:
  assumes "heap_ok w" "no_empty_bucket w" "sorted_buckets w"
  shows "no_empty_bucket (snd (snapshot t w))" "sorted_buckets (snd (snapshot t w))"
proof -
  have "\<forall>(n, a)\<in>set (listeners w). a \<noteq> fresh w"
    using assms(1) by (auto simp: heap_ok_def list_all_iff)
  then show "no_empty_bucket (snd (snapshot t w))" "sorted_buckets (snd (snapshot t w))"
    using assms(2,3)
    by (auto simp: snapshot_def no_empty_bucket_def sorted_buckets_def list_all_iff)
qed

lemma emit_invariants:
  assumes "heap_ok w" "no_empty_bucket w" "sorted_buckets w"
    and "emit e w = Some (r, w')"
  shows "heap_ok w' \<and> no_empty_bucket w' \<and> sorted_buckets w'"
proof -
  let ?t = "constructor_name (events w e)"
  let ?ws = "snd (snapshot ?t w)"
  have s: "heap_ok ?ws" "no_empty_bucket ?ws" "sorted_buckets ?ws"
    using snapshot_frame(1)[OF assms(1)] snapshot_invariants[OF assms(1-3)] by simp_all
  have w': "w' = snd (dispatch_snapshot e (sort_by_priority (bucket ?t w)) 0 [] ?ws)"
    using emit_eq_snapshot[OF assms(1), of e] assms(4)
    by (auto simp: emit_snapshot_def Let_def split: prod.splits sum.splits)
  show ?thesis unfolding w' using s by (rule dispatch_snapshot_invariants)
qed

section \<open>The state an emission leaves\<close>

text \<open>
  When the loop ends with a result, the state is the one reached by running, one after
  the other and each to its end, the handlers of the first \<open>handlerCount\<close> records of
  the snapshot.
\<close>

lemma dispatch_snapshot_run:
  assumes "dispatch_snapshot e hs n ds w = (Inr (n', ds'), w')"
  shows "n \<le> n' \<and> run_handler e (concat (map handler (take (n' - n) hs))) w = (None, w')"
  using assms
proof (induction hs arbitrary: n ds w)
  case Nil
  then show ?case by simp
next
  case (Cons h hs)
  show ?case
  proof (cases "cancelled_instance (events w e)")
    case True
    with Cons.prems show ?thesis by simp
  next
    case False
    obtain r w1 where rh: "run_handler e (handler h) w = (r, w1)"
      by (cases "run_handler e (handler h) w")
    let ?d = "\<lparr>priority_d = priority h, handlerId = id' h, executionTime_d = clock w1 - clock w\<rparr>"
    from Cons.prems False rh have r: "r = None"
      and rec: "dispatch_snapshot e hs (Suc n) (ds @ [?d]) w1 = (Inr (n', ds'), w')"
      by (auto split: option.splits)
    from Cons.IH[OF rec] have le: "Suc n \<le> n'"
      and run: "run_handler e (concat (map handler (take (n' - Suc n) hs))) w1 = (None, w')"
      by simp_all
    from le have "n' - n = Suc (n' - Suc n)" by simp
    then show ?thesis using le run rh r by (simp add: run_handler_append)
  qed
qed

lemma emit_snapshot_run:
  assumes "emit_snapshot e w = (Inr res, w')"
  shows "run_handler e
           (concat (map handler (take (handlerCount res)
              (sort_by_priority (bucket (constructor_name (events w e)) w)))))
           (snd (snapshot (constructor_name (events w e)) w)) = (None, w')"
proof -
  let ?t = "constructor_name (events w e)"
  let ?hs = "sort_by_priority (bucket ?t w)"
  obtain r w2 where d: "dispatch_snapshot e ?hs 0 [] (snd (snapshot ?t w)) = (r, w2)"
    by (cases "dispatch_snapshot e ?hs 0 [] (snd (snapshot ?t w))")
  from assms d obtain n' ds' where r: "r = Inr (n', ds')"
    and res: "handlerCount res = n'" and w2: "w2 = w'"
    by (cases r) (auto simp: emit_snapshot_def Let_def)
  from dispatch_snapshot_run[OF d[unfolded r]] show ?thesis
    unfolding res w2 by simp
qed

section \<open>Claims about the registry\<close>

lemmas eval_simps = new_EventManager_def register_def unregister_def unregisterAll_def
  unregisterByPriority_def getHandlerIds_def getHandlerCount_def hasHandlers_def bucket_def
  handler_id_of_def increment_def decimal.simps digit_char_def sort_by_priority_def splice1_def
  Let_def

text \<open>
  C8: for two distinct event types \<open>typeA\<close> and \<open>typeB\<close> (types are told apart by their
  names), \<open>unregisterAll(typeA)\<close> leaves the handlers of \<open>typeB\<close>, their order,
  \<open>getHandlerCount(typeB)\<close> and \<open>hasHandlers(typeB)\<close> as they were, and removes every
  handler of \<open>typeA\<close>: afterwards \<open>getHandlerCount(typeA)\<close> is 0 and
  \<open>hasHandlers(typeA)\<close> is false.
\<close>

theorem unregisterAll_leaves_other_types:
  assumes "typeA \<noteq> typeB"
  shows "bucket typeB (unregisterAll (Some typeA) w) = bucket typeB w
     \<and> getHandlerIds typeB (unregisterAll (Some typeA) w) = getHandlerIds typeB w
     \<and> getHandlerCount typeB (unregisterAll (Some typeA) w) = getHandlerCount typeB w
     \<and> hasHandlers typeB (unregisterAll (Some typeA) w) = hasHandlers typeB w
     \<and> bucket typeA (unregisterAll (Some typeA) w) = []
     \<and> getHandlerCount typeA (unregisterAll (Some typeA) w) = 0
     \<and> \<not> hasHandlers typeA (unregisterAll (Some typeA) w)"
  using assms
  by (simp add: getHandlerIds_bucket getHandlerCount_bucket hasHandlers_bucket unregisterAll_bucket)

theorem unregisterAll_leaves_other_types_witness:
  "''TypeA'' \<noteq> ''TypeB''
   \<and> getHandlerIds ''TypeB'' (unregisterAll (Some ''TypeA'') two_types) = [''handler_4'', ''handler_2'']
   \<and> getHandlerCount ''TypeB'' (unregisterAll (Some ''TypeA'') two_types) = 2
   \<and> getHandlerCount ''TypeA'' two_types = 2
   \<and> getHandlerCount ''TypeA'' (unregisterAll (Some ''TypeA'') two_types) = 0
   \<and> \<not> hasHandlers ''TypeA'' (unregisterAll (Some ''TypeA'') two_types)"
proof -
  have ne: "''TypeA'' \<noteq> ''TypeB''" by simp
  have b: "getHandlerIds ''TypeB'' two_types = [''handler_4'', ''handler_2'']"
    by (simp add: two_types_def eval_simps)
  have c: "getHandlerCount ''TypeB'' two_types = 2"
    by (simp add: two_types_def eval_simps)
  have a: "getHandlerCount ''TypeA'' two_types = 2"
    by (simp add: two_types_def eval_simps)
  show ?thesis
    using unregisterAll_leaves_other_types[OF ne, of two_types] a b c by simp
qed

lemma concat_map_removeAll:
  "g n = [] \<Longrightarrow> concat (map g (removeAll n ks)) = concat (map g ks)"
  by (induction ks) auto

lemma removed_at_keys:
  "map fst (listeners (removed_at n a k w)) =
     (if splice1 k (arrays w a) = [] then removeAll n (map fst (listeners w))
      else map fst (listeners w))"
  by (simp add: removed_at_def delete_keys)

lemma unregister_all_records:
  assumes "heap_ok w" "ids_distinct w"
  shows "all_records (snd (unregister i w)) = filter (\<lambda>h. id' h \<noteq> i) (all_records w)"
proof (cases "i \<in> id' ` set (all_records w)")
  case True
  from True obtain n a k where na: "(n, a) \<in> set (listeners w)"
    and k: "findIndex (\<lambda>h. id' h = i) (arrays w a) = Some k"
    and u: "unregister i w = (True, removed_at n a k w)"
    by (rule unregister_present)
  let ?w' = "removed_at n a k w"
  let ?g = "\<lambda>m. filter (\<lambda>h. id' h \<noteq> i) (bucket m w)"
  have ok': "heap_ok ?w'" using assms(1) by (rule removed_at_heap_ok)
  have b: "\<And>m. bucket m ?w' = ?g m"
    using removed_at_bucket_filter[OF assms na k] .
  have bn: "bucket n ?w' = splice1 k (arrays w a)"
    using removed_at_bucket[OF assms(1) na, of n k] bucket_entry[OF assms(1) na] by simp
  have "all_records ?w' = concat (map ?g (map fst (listeners ?w')))"
    unfolding all_records_keys[OF ok'] using b by simp
  also have "\<dots> = concat (map ?g (map fst (listeners w)))"
  proof (cases "splice1 k (arrays w a) = []")
    case True
    then have gn: "?g n = []" using b[of n] bn by simp
    have keys: "map fst (listeners ?w') = removeAll n (map fst (listeners w))"
      using True by (simp add: removed_at_keys)
    show ?thesis unfolding keys using gn by (rule concat_map_removeAll)
  next
    case False
    then have "map fst (listeners ?w') = map fst (listeners w)"
      by (simp add: removed_at_keys)
    then show ?thesis by simp
  qed
  also have "\<dots> = filter (\<lambda>h. id' h \<noteq> i) (all_records w)"
    unfolding all_records_keys[OF assms(1)] by (simp add: filter_concat comp_def)
  finally show ?thesis using u by simp
next
  case False
  then have "\<forall>h\<in>set (all_records w). id' h \<noteq> i" by auto
  then have "filter (\<lambda>h. id' h \<noteq> i) (all_records w) = all_records w"
    by (simp add: filter_id_conv)
  with False show ?thesis by (simp add: unregister_absent)
qed

lemma length_filter_distinct:
  "distinct (map f xs) \<Longrightarrow> i \<in> f ` set xs \<Longrightarrow> Suc (length (filter (\<lambda>h. f h \<noteq> i) xs)) = length xs"
proof (induction xs)
  case Nil then show ?case by simp
next
  case (Cons x xs)
  show ?case
  proof (cases "f x = i")
    case True
    then have "\<forall>h\<in>set xs. f h \<noteq> i" using Cons.prems(1) by (auto simp: image_iff)
    then have "filter (\<lambda>h. f h \<noteq> i) xs = xs" by (simp add: filter_id_conv)
    with True show ?thesis by simp
  next
    case False
    with Cons show ?thesis by auto
  qed
qed

text \<open>
  In a state whose ids are unique, \<open>unregister(id)\<close> returns true if and only if
  some record of the table has that id. The call removes the record of that id and
  nothing else, in every array and so in the whole table, whose other records keep
  their order; when it returns true the table has exactly one record less, when it
  returns false the state is unchanged. A second call with the same id returns false
  and changes nothing.
\<close>

lemma unregister_removes_exactly_that_handler:
  assumes "heap_ok w" and "ids_distinct w"
  shows "(fst (unregister i w) \<longleftrightarrow> i \<in> id' ` set (all_records w))
     \<and> bucket n (snd (unregister i w)) = filter (\<lambda>h. id' h \<noteq> i) (bucket n w)
     \<and> all_records (snd (unregister i w)) = filter (\<lambda>h. id' h \<noteq> i) (all_records w)
     \<and> (fst (unregister i w) \<longrightarrow>
          Suc (length (all_records (snd (unregister i w)))) = length (all_records w))
     \<and> (\<not> fst (unregister i w) \<longrightarrow> snd (unregister i w) = w)
     \<and> unregister i (snd (unregister i w)) = (False, snd (unregister i w))"
proof (intro conjI impI)
  show "fst (unregister i w) \<longleftrightarrow> i \<in> id' ` set (all_records w)" by (rule unregister_fst)
  show "bucket n (snd (unregister i w)) = filter (\<lambda>h. id' h \<noteq> i) (bucket n w)"
    using assms by (rule unregister_bucket_filter)
  show ar: "all_records (snd (unregister i w)) = filter (\<lambda>h. id' h \<noteq> i) (all_records w)"
    using assms by (rule unregister_all_records)
  show "Suc (length (all_records (snd (unregister i w)))) = length (all_records w)"
    if "fst (unregister i w)"
  proof -
    from that have "i \<in> id' ` set (all_records w)" by (simp add: unregister_fst)
    then show ?thesis
      unfolding ar using assms(2) by (intro length_filter_distinct) (simp add: ids_distinct_def)
  qed
  show "snd (unregister i w) = w" if "\<not> fst (unregister i w)"
    using that by (simp add: unregister_fst unregister_absent)
  have "i \<notin> id' ` set (all_records (snd (unregister i w)))"
    unfolding ar by auto
  then show "unregister i (snd (unregister i w)) = (False, snd (unregister i w))"
    by (rule unregister_absent)
qed

lemma two_types_ok: "heap_ok two_types" "ids_distinct two_types"
  by (simp_all add: two_types_def eval_simps heap_ok_def ids_distinct_def all_records_def)

lemma unregister_removes_exactly_that_handler_example:
  "heap_ok two_types \<and> ids_distinct two_types
   \<and> getHandlerIds ''TypeB'' two_types = [''handler_4'', ''handler_2'']
   \<and> fst (unregister ''handler_4'' two_types)
   \<and> getHandlerIds ''TypeB'' (snd (unregister ''handler_4'' two_types)) = [''handler_2'']
   \<and> \<not> fst (unregister ''handler_4'' (snd (unregister ''handler_4'' two_types)))"
proof -
  have ids: "getHandlerIds ''TypeB'' two_types = [''handler_4'', ''handler_2'']"
    by (simp add: two_types_def eval_simps)
  have mem: "''handler_4'' \<in> id' ` set (all_records two_types)"
    by (simp add: two_types_def eval_simps all_records_def)
  have b: "bucket ''TypeB'' two_types =
      [\<lparr>handler = [Output ''b2''], priority = HIGH, id' = ''handler_4''\<rparr>,
       \<lparr>handler = [Output ''b1''], priority = LOW, id' = ''handler_2''\<rparr>]"
    by (simp add: two_types_def eval_simps)
  then have "map id' (filter (\<lambda>h. id' h \<noteq> ''handler_4'') (bucket ''TypeB'' two_types)) = [''handler_2'']"
    by simp
  then show ?thesis
    using unregister_removes_exactly_that_handler[OF two_types_ok, of "''handler_4''" "''TypeB''"]
      two_types_ok ids mem
    by (simp add: getHandlerIds_bucket)
qed

lemma unregisterByPriority_entry:
  "map_of (listeners (unregisterByPriority t p w)) t = None \<longleftrightarrow>
     filter (\<lambda>h. priority h \<noteq> p) (bucket t w) = []"
  by (auto simp: unregisterByPriority_def bucket_def Let_def delete_conv' update_conv'
      split: option.splits)

text \<open>
  C7: \<open>unregisterByPriority(eventType, p)\<close> removes from the array of the type exactly
  the records of priority \<open>p\<close> and keeps the others in their order; the arrays of the
  other types are unchanged; \<open>getHandlerIds\<close> then returns exactly the ids of the
  records that remain; the entry of the type is gone if and only if no record remains;
  and the call changes nothing when the type has no entry.
\<close>

theorem unregisterByPriority_removes_that_priority:
  assumes "heap_ok w"
  shows "bucket n (unregisterByPriority t p w) =
       (if n = t then filter (\<lambda>h. priority h \<noteq> p) (bucket t w) else bucket n w)
     \<and> getHandlerIds t (unregisterByPriority t p w) =
         map id' (filter (\<lambda>h. priority h \<noteq> p) (bucket t w))
     \<and> (map_of (listeners (unregisterByPriority t p w)) t = None \<longleftrightarrow>
          filter (\<lambda>h. priority h \<noteq> p) (bucket t w) = [])
     \<and> (map_of (listeners w) t = None \<longrightarrow> unregisterByPriority t p w = w)"
proof (intro conjI impI)
  show b: "bucket n (unregisterByPriority t p w) =
       (if n = t then filter (\<lambda>h. priority h \<noteq> p) (bucket t w) else bucket n w)" for n
    using assms by (rule unregisterByPriority_bucket)
  show "getHandlerIds t (unregisterByPriority t p w) =
         map id' (filter (\<lambda>h. priority h \<noteq> p) (bucket t w))"
    by (simp add: getHandlerIds_bucket b)
  show "map_of (listeners (unregisterByPriority t p w)) t = None \<longleftrightarrow>
          filter (\<lambda>h. priority h \<noteq> p) (bucket t w) = []"
    by (rule unregisterByPriority_entry)
  show "unregisterByPriority t p w = w" if "map_of (listeners w) t = None"
    using that by (simp add: unregisterByPriority_def)
qed

theorem unregisterByPriority_removes_that_priority_witness:
  "heap_ok two_types
   \<and> getHandlerIds ''TypeA'' two_types = [''handler_1'', ''handler_3'']
   \<and> getHandlerIds ''TypeA'' (unregisterByPriority ''TypeA'' HIGH two_types) = [''handler_3'']
   \<and> getHandlerIds ''TypeB'' (unregisterByPriority ''TypeA'' HIGH two_types) = [''handler_4'', ''handler_2'']
   \<and> map_of (listeners two_types) ''Other'' = None
   \<and> unregisterByPriority ''Other'' HIGH two_types = two_types"
proof -
  have a: "bucket ''TypeA'' two_types =
      [\<lparr>handler = [], priority = HIGH, id' = ''handler_1''\<rparr>,
       \<lparr>handler = [], priority = LOW, id' = ''handler_3''\<rparr>]"
    by (simp add: two_types_def eval_simps)
  have b: "bucket ''TypeB'' two_types =
      [\<lparr>handler = [Output ''b2''], priority = HIGH, id' = ''handler_4''\<rparr>,
       \<lparr>handler = [Output ''b1''], priority = LOW, id' = ''handler_2''\<rparr>]"
    by (simp add: two_types_def eval_simps)
  have o: "map_of (listeners two_types) ''Other'' = None"
    by (simp add: two_types_def eval_simps)
  show ?thesis
    using unregisterByPriority_removes_that_priority[OF two_types_ok(1), of "''TypeA''" "''TypeA''" HIGH]
      unregisterByPriority_removes_that_priority[OF two_types_ok(1), of "''TypeB''" "''TypeA''" HIGH]
      unregisterByPriority_removes_that_priority[OF two_types_ok(1), of "''Other''" "''Other''" HIGH]
      two_types_ok(1) a b o
    by (simp add: getHandlerIds_bucket)
qed

text \<open>
  C5: after any sequence of calls of \<open>register\<close>, \<open>unregister\<close>, \<open>unregisterAll\<close>
  and \<open>unregisterByPriority\<close> on a new manager, no entry of the table holds an empty
  array. So a type whose last handler was removed has no entry, and for every type
  \<open>getHandlerCount\<close> is 0 exactly when, and \<open>hasHandlers\<close> is false exactly when, the
  type has no entry.
\<close>

theorem no_empty_bucket_after_operations:
  "no_empty_bucket (snd (exec_ops ops new_EventManager))
   \<and> (getHandlerCount n (snd (exec_ops ops new_EventManager)) = 0 \<longleftrightarrow>
        map_of (listeners (snd (exec_ops ops new_EventManager))) n = None)
   \<and> (hasHandlers n (snd (exec_ops ops new_EventManager)) \<longleftrightarrow>
        map_of (listeners (snd (exec_ops ops new_EventManager))) n \<noteq> None)"
proof -
  let ?w = "snd (exec_ops ops new_EventManager)"
  have inv: "heap_ok ?w" "no_empty_bucket ?w"
    using exec_ops_invariants[OF new_EventManager_invariants(1-3), of ops] by simp_all
  have ne: "bucket n ?w \<noteq> []" if "map_of (listeners ?w) n \<noteq> None"
  proof -
    from that have "n \<in> fst ` set (listeners ?w)" by (simp add: map_of_eq_None_iff)
    moreover have "\<forall>n\<in>fst ` set (listeners ?w). bucket n ?w \<noteq> []"
      using inv no_empty_bucket_iff[of ?w] by blast
    ultimately show ?thesis by blast
  qed
  have e: "bucket n ?w = []" if "map_of (listeners ?w) n = None"
    using that by (simp add: bucket_def)
  have iff: "bucket n ?w = [] \<longleftrightarrow> map_of (listeners ?w) n = None"
  proof (cases "map_of (listeners ?w) n = None")
    case True with e show ?thesis by simp
  next
    case False with ne show ?thesis by simp
  qed
  show ?thesis
    using inv(2) by (simp add: getHandlerCount_bucket hasHandlers_bucket iff)
qed

theorem no_empty_bucket_after_operations_witness:
  "listeners (snd (exec_ops [Register ''MyEvent'' [] NORMAL, Unregister ''handler_1''] new_EventManager)) = []
   \<and> getHandlerCount ''MyEvent''
        (snd (exec_ops [Register ''MyEvent'' [] NORMAL, Unregister ''handler_1''] new_EventManager)) = 0
   \<and> \<not> hasHandlers ''MyEvent''
        (snd (exec_ops [Register ''MyEvent'' [] NORMAL, Unregister ''handler_1''] new_EventManager))"
proof -
  have l: "listeners (snd (exec_ops [Register ''MyEvent'' [] NORMAL, Unregister ''handler_1''] new_EventManager)) = []"
    by (simp add: eval_simps)
  then show ?thesis
    using no_empty_bucket_after_operations[of "[Register ''MyEvent'' [] NORMAL, Unregister ''handler_1'']" "''MyEvent''"]
    by simp
qed

lemma exec_ops_fst_append:
  "fst (exec_ops (xs @ ys) w) = fst (exec_ops xs w) @ fst (exec_ops ys (snd (exec_ops xs w)))"
  by (induction xs arbitrary: w) simp_all

lemma returned_ids_append: "returned_ids (xs @ ys) = returned_ids xs @ returned_ids ys"
  by (induction xs rule: returned_ids.induct) simp_all

lemma registrations_append: "registrations (xs @ ys) = registrations xs + registrations ys"
  by (induction xs rule: registrations.induct) simp_all

lemma register_and_clear_Suc:
  "register_and_clear (Suc n) = [Register ''E'' [] NORMAL, UnregisterAll None] @ register_and_clear n"
  by (simp add: register_and_clear_def)

lemma registrations_register_and_clear: "registrations (register_and_clear n) = n"
  by (induction n) (simp_all add: register_and_clear_Suc, simp add: register_and_clear_def)

lemma listeners_register_and_clear:
  "listeners w = [] \<Longrightarrow> listeners (snd (exec_ops (register_and_clear n) w)) = []"
proof (induction n arbitrary: w)
  case 0 then show ?case by (simp add: register_and_clear_def)
next
  case (Suc n)
  have "listeners (unregisterAll None (snd (register ''E'' [] NORMAL w))) = []"
    by (simp add: unregisterAll_def)
  from Suc.IH[OF this] show ?case
    by (simp add: register_and_clear_Suc)
qed

lemma saturated_register_twice:
  assumes "listeners w = []" "handlerCounter w = 2 ^ 53"
  shows "returned_ids (fst (exec_ops [Register ''E'' [] NORMAL, Register ''E'' [] NORMAL] w))
       = [handler_id_of (2 ^ 53), handler_id_of (2 ^ 53)]"
    and "map id' (all_records (snd (exec_ops [Register ''E'' [] NORMAL, Register ''E'' [] NORMAL] w)))
       = [handler_id_of (2 ^ 53), handler_id_of (2 ^ 53)]"
  using assms
  by (simp_all add: register_def Let_def increment_def all_records_def sort_by_priority_def)

lemma handler_id_of_2_53:
  "handler_id_of (2 ^ 53) = ''handler_9007199254740992''"
  "handler_id_of 9007199254740992 = ''handler_9007199254740992''"
  by (simp_all add: handler_id_of_def decimal.simps digit_char_def)



lemma register_and_clear_saturates:
  "listeners (snd (exec_ops (register_and_clear (2 ^ 53)) new_EventManager)) = []"
  "handlerCounter (snd (exec_ops (register_and_clear (2 ^ 53)) new_EventManager)) = 2 ^ 53"
proof -
  let ?w = "snd (exec_ops (register_and_clear (2 ^ 53)) new_EventManager)"
  show "listeners ?w = []"
    by (rule listeners_register_and_clear) (simp add: new_EventManager_def)
  have "handlerCounter new_EventManager + registrations (register_and_clear (2 ^ 53)) \<le> 2 ^ 53"
    unfolding registrations_register_and_clear by (simp add: new_EventManager_def)
  from exec_ops_counter_le[OF this] show "handlerCounter ?w = 2 ^ 53"
    unfolding registrations_register_and_clear by (simp add: new_EventManager_def)
qed

text \<open>
  While the counter is exact: in any sequence of operations on a new manager with at
  most \<open>2 ^ 53\<close> calls of \<open>register\<close>, the counter is the number of registrations
  made, the \<open>k\<close>-th of them returns \<open>handler_k\<close>, no id is returned twice, and
  afterwards no two records of the table have the same id.
\<close>

lemma register_ids_fresh_up_to_2_53:
  assumes "registrations ops \<le> 2 ^ 53"
  shows "handlerCounter (snd (exec_ops ops new_EventManager)) = registrations ops
     \<and> returned_ids (fst (exec_ops ops new_EventManager)) =
         map handler_id_of [1..<Suc (registrations ops)]
     \<and> distinct (returned_ids (fst (exec_ops ops new_EventManager)))
     \<and> ids_distinct (snd (exec_ops ops new_EventManager))"
proof -
  have c0: "handlerCounter new_EventManager = 0" by (simp add: new_EventManager_def)
  have b: "handlerCounter new_EventManager + registrations ops \<le> 2 ^ 53"
    using assms by (simp add: c0)
  note ids = exec_ops_ids[OF new_EventManager_invariants(1,4,5) b]
  have r: "returned_ids (fst (exec_ops ops new_EventManager)) =
         map handler_id_of [1..<Suc (registrations ops)]"
    using ids by (simp add: c0 del: upt_Suc)
  have "inj_on handler_id_of (set [1..<Suc (registrations ops)])"
    by (rule inj_onI) (simp add: handler_id_of_inj)
  then have d: "distinct (returned_ids (fst (exec_ops ops new_EventManager)))"
    unfolding r by (simp add: distinct_map del: upt_Suc)
  show ?thesis
    using exec_ops_counter_le[OF b] r d ids
    by (simp add: c0 del: upt_Suc)
qed

lemma register_ids_fresh_up_to_2_53_example:
  "registrations [Register ''A'' [] LOW, Unregister ''handler_1'', Register ''B'' [] HIGH,
      Register ''A'' [] HIGH] \<le> 2 ^ 53
   \<and> returned_ids (fst (exec_ops [Register ''A'' [] LOW, Unregister ''handler_1'',
        Register ''B'' [] HIGH, Register ''A'' [] HIGH] new_EventManager))
      = [''handler_1'', ''handler_2'', ''handler_3'']
   \<and> ids_distinct (snd (exec_ops [Register ''A'' [] LOW, Unregister ''handler_1'',
        Register ''B'' [] HIGH, Register ''A'' [] HIGH] new_EventManager))"
proof -
  have h: "registrations [Register ''A'' [] LOW, Unregister ''handler_1'', Register ''B'' [] HIGH,
      Register ''A'' [] HIGH] \<le> 2 ^ 53" by simp
  have e: "map handler_id_of [Suc 0..<Suc (Suc (Suc (Suc 0)))] = [''handler_1'', ''handler_2'', ''handler_3'']"
    by (simp add: handler_id_of_def decimal.simps digit_char_def)
  show ?thesis
    using register_ids_fresh_up_to_2_53[OF h] h
    by (simp add: e del: upt_Suc exec_ops_fst_Cons exec_ops_snd_Cons)
qed

text \<open>
  C9: every call of \<open>register\<close> returns an id that was never returned before, so that
  no two records of the table ever share an id. The code does not keep this.
  \<open>handlerCounter\<close> is a JavaScript number, and \<open>++\<close> leaves \<open>2 ^ 53\<close> unchanged. After
  \<open>2 ^ 53\<close> registrations (each followed by \<open>unregisterAll()\<close>, so that the table
  stays small) two more calls of \<open>register\<close> both return
  \<open>handler_9007199254740992\<close>: the ids returned in the whole run are not distinct, and
  the table holds two records with the same id.
\<close>

theorem ids_repeat_after_2_53_registrations:
  "returned_ids (fst (exec_ops [Register ''E'' [] NORMAL, Register ''E'' [] NORMAL]
        (snd (exec_ops (register_and_clear (2 ^ 53)) new_EventManager))))
     = [''handler_9007199254740992'', ''handler_9007199254740992'']
   \<and> \<not> distinct (returned_ids (fst (exec_ops
        (register_and_clear (2 ^ 53) @ [Register ''E'' [] NORMAL, Register ''E'' [] NORMAL])
        new_EventManager)))
   \<and> \<not> ids_distinct (snd (exec_ops
        (register_and_clear (2 ^ 53) @ [Register ''E'' [] NORMAL, Register ''E'' [] NORMAL])
        new_EventManager))"
proof -
  let ?w = "snd (exec_ops (register_and_clear (2 ^ 53)) new_EventManager)"
  note sat = register_and_clear_saturates
  note tw = saturated_register_twice[OF sat]
  have 0: "returned_ids (fst (exec_ops [Register ''E'' [] NORMAL, Register ''E'' [] NORMAL] ?w))
     = [''handler_9007199254740992'', ''handler_9007199254740992'']"
    unfolding tw(1) handler_id_of_2_53(1) ..
  have "\<not> distinct (returned_ids (fst (exec_ops [Register ''E'' [] NORMAL, Register ''E'' [] NORMAL] ?w)))"
    unfolding tw(1) by simp
  then have 1: "\<not> distinct (returned_ids (fst (exec_ops
        (register_and_clear (2 ^ 53) @ [Register ''E'' [] NORMAL, Register ''E'' [] NORMAL])
        new_EventManager)))"
    unfolding exec_ops_fst_append returned_ids_append by simp
  have "\<not> ids_distinct (snd (exec_ops [Register ''E'' [] NORMAL, Register ''E'' [] NORMAL] ?w))"
    unfolding ids_distinct_def tw(2) by simp
  then have 2: "\<not> ids_distinct (snd (exec_ops
        (register_and_clear (2 ^ 53) @ [Register ''E'' [] NORMAL, Register ''E'' [] NORMAL])
        new_EventManager))"
    unfolding exec_ops_snd_append .
  from 0 1 2 show ?thesis by blast
qed


section \<open>Claims about \<open>emit\<close>\<close>

lemma dispatch_snapshot_cancelled:
  "cancelled_instance (events w e) \<Longrightarrow> dispatch_snapshot e hs n ds w = (Inr (n, ds), w)"
  by (cases hs) simp_all

text \<open>
  C6: let the snapshot of an emission be \<open>pre @ h # post\<close>, let the handlers of \<open>pre\<close>
  run to their end without leaving the event cancelled, and let \<open>h\<close> throw \<open>err\<close>.
  Then \<open>emit\<close> ends with that error and returns no result. The state it leaves is
  the one reached by running the handlers of \<open>pre\<close> and then \<open>h\<close> up to its throw: what
  they did is kept, and no handler of \<open>post\<close> has run.
\<close>

theorem emit_fails_when_handler_throws:
  assumes "heap_ok w"
    and "sort_by_priority (bucket (constructor_name (events w e)) w) = pre @ h # post"
    and "run_handler e (concat (map handler pre)) (snd (snapshot (constructor_name (events w e)) w)) = (None, w1)"
    and "\<not> cancelled_instance (events w1 e)"
    and "run_handler e (handler h) w1 = (Some err, w2)"
  shows "emit e w = Some (Inl err, w2)
     \<and> run_handler e (concat (map handler (pre @ [h]))) (snd (snapshot (constructor_name (events w e)) w))
         = (Some err, w2)"
proof -
  let ?t = "constructor_name (events w e)"
  let ?ws = "snd (snapshot ?t w)"
  from dispatch_snapshot_prefix[OF assms(3,4)] obtain ds' where
    p: "\<And>rest n ds. dispatch_snapshot e (pre @ rest) n ds ?ws
            = dispatch_snapshot e rest (n + length pre) (ds @ ds') w1"
    by blast
  have "dispatch_snapshot e (pre @ h # post) 0 [] ?ws = (Inl err, w2)"
    unfolding p using assms(4,5) by simp
  then have "emit_snapshot e w = (Inl err, w2)"
    by (simp add: emit_snapshot_def Let_def assms(2))
  moreover have "run_handler e (concat (map handler (pre @ [h]))) ?ws = (Some err, w2)"
    using assms(3,5) by (simp add: run_handler_append)
  ultimately show ?thesis by (simp add: emit_eq_snapshot[OF assms(1)])
qed


lemma throwing_handlers_bucket:
  "bucket ''MyEvent'' throwing_handlers =
     [\<lparr>handler = [Output ''one''], priority = HIGH, id' = ''handler_1''\<rparr>,
      \<lparr>handler = [Output ''two'', Throw ''boom'', Output ''unreached''], priority = NORMAL, id' = ''handler_2''\<rparr>,
      \<lparr>handler = [Output ''three''], priority = LOW, id' = ''handler_3''\<rparr>]"
  by (simp add: throwing_handlers_def eval_simps)

lemma throwing_handlers_ok: "heap_ok throwing_handlers"
  by (simp add: throwing_handlers_def eval_simps heap_ok_def)

theorem emit_fails_when_handler_throws_witness:
  "heap_ok throwing_handlers
   \<and> getHandlerIds ''MyEvent'' throwing_handlers = [''handler_1'', ''handler_2'', ''handler_3'']
   \<and> map_option (\<lambda>(r, w'). (r, effects w')) (emit 0 throwing_handlers)
        = Some (Inl ''boom'', [''one'', ''two''])"
proof -
  let ?h1 = "\<lparr>handler = [Output ''one''], priority = HIGH, id' = ''handler_1''\<rparr>"
  let ?h2 = "\<lparr>handler = [Output ''two'', Throw ''boom'', Output ''unreached''], priority = NORMAL, id' = ''handler_2''\<rparr>"
  let ?h3 = "\<lparr>handler = [Output ''three''], priority = LOW, id' = ''handler_3''\<rparr>"
  let ?ws = "snd (snapshot ''MyEvent'' throwing_handlers)"
  let ?w1 = "?ws\<lparr>effects := [''one'']\<rparr>"
  let ?w2 = "?ws\<lparr>effects := [''one'', ''two'']\<rparr>"
  have n: "constructor_name (events throwing_handlers 0) = ''MyEvent''"
    by (simp add: throwing_handlers_def)
  have e0: "effects ?ws = []"
    by (simp add: snapshot_def throwing_handlers_def eval_simps)
  have s: "sort_by_priority (bucket (constructor_name (events throwing_handlers 0)) throwing_handlers)
      = [?h1] @ ?h2 # [?h3]"
    by (simp add: n throwing_handlers_bucket sort_by_priority_def)
  have r1: "run_handler 0 (concat (map handler [?h1]))
      (snd (snapshot (constructor_name (events throwing_handlers 0)) throwing_handlers)) = (None, ?w1)"
    by (simp add: n e0)
  have nc: "\<not> cancelled_instance (events ?w1 0)"
    by (simp add: snapshot_def throwing_handlers_def)
  have r2: "run_handler 0 (handler ?h2) ?w1 = (Some ''boom'', ?w2)"
    by simp
  show ?thesis
    using emit_fails_when_handler_throws[OF throwing_handlers_ok s r1 nc r2]
      throwing_handlers_ok throwing_handlers_bucket
    by (simp add: getHandlerIds_bucket)
qed

lemma run_action_cancellable:
  "events w e = Cancellable n c \<Longrightarrow> \<exists>c'. events (snd (run_action e x w)) e = Cancellable n c'"
  by (cases x) (simp_all add: exec_op_events)

lemma run_handler_cancellable:
  "events w e = Cancellable n c \<Longrightarrow> \<exists>c'. events (snd (run_handler e as w)) e = Cancellable n c'"
proof (induction as arbitrary: w c)
  case Nil then show ?case by simp
next
  case (Cons x as)
  from run_action_cancellable[OF Cons.prems, of x] obtain c1 where
    c1: "events (snd (run_action e x w)) e = Cancellable n c1" by blast
  show ?case
  proof (cases "run_action e x w")
    case (Pair r w')
    with c1 Cons.IH[of w' c1] show ?thesis by (cases r) simp_all
  qed
qed

lemma run_handler_cancel_last:
  assumes "run_handler e (as1 @ Cancel reason # as2) w = (None, w')"
    and "events w e = Cancellable n c"
    and "\<not> list_ex is_Cancel as2"
  shows "\<exists>c0. events w' e = Cancellable n (cancel reason c0)"
proof -
  obtain r wa where a: "run_handler e as1 w = (r, wa)" by (cases "run_handler e as1 w")
  with assms(1) have r: "r = None"
    by (auto simp: run_handler_append split: option.splits)
  from run_handler_cancellable[OF assms(2), of as1] a obtain ca where
    ca: "events wa e = Cancellable n ca" by auto
  let ?wb = "wa\<lparr>events := (events wa)(e := Cancellable n (cancel reason ca))\<rparr>"
  have b: "run_handler e as2 ?wb = (None, w')"
    using assms(1) a r ca by (simp add: run_handler_append)
  have "events w' = events ?wb"
    using run_handler_no_cancel[OF assms(3), of e ?wb] b by simp
  then have "events w' e = Cancellable n (cancel reason ca)" by simp
  then show ?thesis by blast
qed

text \<open>
  C2: the flag is tested before each handler, never after one.

  First part: let the snapshot of an emission of a cancellable event be
  \<open>pre @ h # post\<close>, let the handlers of \<open>pre\<close> run to their end and leave the event
  not cancelled, and let \<open>h\<close> call \<open>cancel(reason)\<close> (its last call of \<open>cancel\<close>) and
  run to its end. Then \<open>emit\<close> returns a result; \<open>h\<close> is counted in \<open>handlerCount\<close>
  and is the last entry of \<open>executedHandlers\<close>; the state left is the one at the end
  of \<open>h\<close>, so \<open>h\<close> has completed and no handler of \<open>post\<close> has run; and the event is
  cancelled with the reason passed to \<open>cancel\<close>.

  Second part: when the event is already cancelled at the call, no handler is invoked
  at all, not even the first: \<open>handlerCount\<close> is 0, \<open>executedHandlers\<close> is empty, and
  the state left is the one in which \<open>emit\<close> took its snapshot. A loop that tested the
  flag after each handler would run the first handler here.
\<close>

theorem emit_stops_after_cancelling_handler:
  assumes "heap_ok w"
  shows "(sort_by_priority (bucket (constructor_name (events w e)) w) = pre @ h # post
        \<and> run_handler e (concat (map handler pre))
              (snd (snapshot (constructor_name (events w e)) w)) = (None, w1)
        \<and> events w1 e = Cancellable n c \<and> \<not> isCancelled c
        \<and> handler h = as1 @ Cancel reason # as2 \<and> \<not> list_ex is_Cancel as2
        \<and> run_handler e (handler h) w1 = (None, w2)
      \<longrightarrow> (\<exists>res c'. emit e w = Some (Inr res, w2)
             \<and> handlerCount res = Suc (length pre)
             \<and> map handlerId (executedHandlers res) = map id' (pre @ [h])
             \<and> events w2 e = Cancellable n c' \<and> isCancelled c'
             \<and> getCancelReason c' = (case reason of None \<Rightarrow> [] | Some r \<Rightarrow> r)))
     \<and> (cancelled_instance (events w e)
      \<longrightarrow> emit e w =
            Some (Inr \<lparr>event = e, handlerCount = 0, executionTime = 0, executedHandlers = []\<rparr>,
                  snd (snapshot (constructor_name (events w e)) w)))"
proof (intro conjI impI)
  let ?t = "constructor_name (events w e)"
  let ?ws = "snd (snapshot ?t w)"
  assume a: "sort_by_priority (bucket ?t w) = pre @ h # post
        \<and> run_handler e (concat (map handler pre)) ?ws = (None, w1)
        \<and> events w1 e = Cancellable n c \<and> \<not> isCancelled c
        \<and> handler h = as1 @ Cancel reason # as2 \<and> \<not> list_ex is_Cancel as2
        \<and> run_handler e (handler h) w1 = (None, w2)"
  then have s: "sort_by_priority (bucket ?t w) = pre @ h # post"
    and rp: "run_handler e (concat (map handler pre)) ?ws = (None, w1)"
    and ev: "events w1 e = Cancellable n c" and ni: "\<not> isCancelled c"
    and hb: "handler h = as1 @ Cancel reason # as2" and nl: "\<not> list_ex is_Cancel as2"
    and rh: "run_handler e (handler h) w1 = (None, w2)"
    by blast+
  have nc: "\<not> cancelled_instance (events w1 e)" using ev ni by simp
  from dispatch_snapshot_prefix[OF rp nc] obtain ds' where
    ds': "map handlerId ds' = map id' pre"
    and p: "\<And>rest n ds. dispatch_snapshot e (pre @ rest) n ds ?ws
            = dispatch_snapshot e rest (n + length pre) (ds @ ds') w1"
    by blast
  from run_handler_cancel_last[OF rh[unfolded hb] ev nl] obtain c0 where
    c0: "events w2 e = Cancellable n (cancel reason c0)" by blast
  then have cw2: "cancelled_instance (events w2 e)"
    by (simp add: isCancelled_def cancel_def)
  let ?d = "\<lparr>priority_d = priority h, handlerId = id' h, executionTime_d = clock w2 - clock w1\<rparr>"
  have "dispatch_snapshot e (pre @ h # post) 0 [] ?ws = (Inr (Suc (length pre), ds' @ [?d]), w2)"
    unfolding p using nc rh dispatch_snapshot_cancelled[OF cw2] by simp
  then have "emit_snapshot e w =
      (Inr \<lparr>event = e, handlerCount = Suc (length pre), executionTime = clock w2 - clock w,
            executedHandlers = ds' @ [?d]\<rparr>, w2)"
    by (simp add: emit_snapshot_def Let_def s)
  then have "emit e w =
      Some (Inr \<lparr>event = e, handlerCount = Suc (length pre), executionTime = clock w2 - clock w,
            executedHandlers = ds' @ [?d]\<rparr>, w2)"
    by (simp add: emit_eq_snapshot[OF assms(1)])
  moreover have "isCancelled (cancel reason c0)"
    "getCancelReason (cancel reason c0) = (case reason of None \<Rightarrow> [] | Some r \<Rightarrow> r)"
    by (simp_all add: isCancelled_def getCancelReason_def cancel_def)
  ultimately show "\<exists>res c'. emit e w = Some (Inr res, w2)
             \<and> handlerCount res = Suc (length pre)
             \<and> map handlerId (executedHandlers res) = map id' (pre @ [h])
             \<and> events w2 e = Cancellable n c' \<and> isCancelled c'
             \<and> getCancelReason c' = (case reason of None \<Rightarrow> [] | Some r \<Rightarrow> r)"
    using c0 ds' by auto
next
  let ?t = "constructor_name (events w e)"
  let ?ws = "snd (snapshot ?t w)"
  assume c: "cancelled_instance (events w e)"
  then have "cancelled_instance (events ?ws e)" by (simp add: snapshot_def)
  then have "dispatch_snapshot e (sort_by_priority (bucket ?t w)) 0 [] ?ws = (Inr (0, []), ?ws)"
    by (rule dispatch_snapshot_cancelled)
  then have "emit_snapshot e w =
      (Inr \<lparr>event = e, handlerCount = 0, executionTime = 0, executedHandlers = []\<rparr>, ?ws)"
    by (simp add: emit_snapshot_def Let_def snapshot_def)
  then show "emit e w =
      Some (Inr \<lparr>event = e, handlerCount = 0, executionTime = 0, executedHandlers = []\<rparr>, ?ws)"
    by (simp add: emit_eq_snapshot[OF assms(1)])
qed

lemma cancelling_handlers_bucket:
  "bucket ''MyCancellableEvent'' cancelling_handlers =
     [\<lparr>handler = [Output ''first'', Cancel (Some ''stop-now''), Output ''done''], priority = NORMAL, id' = ''handler_1''\<rparr>,
      \<lparr>handler = [Output ''second-should-not-run''], priority = LOW, id' = ''handler_2''\<rparr>]"
  by (simp add: cancelling_handlers_def eval_simps)

lemma cancelling_handlers_ok: "heap_ok cancelling_handlers"
  by (simp add: cancelling_handlers_def eval_simps heap_ok_def)

lemma already_cancelled_ok:
  "heap_ok already_cancelled" "cancelled_instance (events already_cancelled 0)"
  "getHandlerIds ''MyCancellableEvent'' already_cancelled = [''handler_1'', ''handler_2'']"
  "effects (snd (snapshot (constructor_name (events already_cancelled 0)) already_cancelled)) = []"
  using cancelling_handlers_ok cancelling_handlers_bucket
  by (simp_all add: already_cancelled_def heap_ok_def getHandlerIds_def bucket_def snapshot_def
      isCancelled_def cancelling_handlers_def eval_simps)

theorem emit_stops_after_cancelling_handler_witness:
  "heap_ok cancelling_handlers
   \<and> getHandlerIds ''MyCancellableEvent'' cancelling_handlers = [''handler_1'', ''handler_2'']
   \<and> (\<exists>res w'. emit 0 cancelling_handlers = Some (Inr res, w')
        \<and> handlerCount res = 1
        \<and> map handlerId (executedHandlers res) = [''handler_1'']
        \<and> effects w' = [''first'', ''done'']
        \<and> events w' 0 = Cancellable ''MyCancellableEvent'' \<lparr>cancelled = True, cancelReason = ''stop-now''\<rparr>)
   \<and> heap_ok already_cancelled \<and> cancelled_instance (events already_cancelled 0)
   \<and> getHandlerIds ''MyCancellableEvent'' already_cancelled = [''handler_1'', ''handler_2'']
   \<and> (\<exists>w'. emit 0 already_cancelled =
          Some (Inr \<lparr>event = 0, handlerCount = 0, executionTime = 0, executedHandlers = []\<rparr>, w')
        \<and> effects w' = [])"
proof -
  let ?h1 = "\<lparr>handler = [Output ''first'', Cancel (Some ''stop-now''), Output ''done''], priority = NORMAL, id' = ''handler_1''\<rparr>"
  let ?h2 = "\<lparr>handler = [Output ''second-should-not-run''], priority = LOW, id' = ''handler_2''\<rparr>"
  let ?ws = "snd (snapshot ''MyCancellableEvent'' cancelling_handlers)"
  let ?w2 = "?ws\<lparr>effects := [''first'', ''done''],
      events := (\<lambda>e. Cancellable ''MyCancellableEvent'' new_CancellableEvent)
        (0 := Cancellable ''MyCancellableEvent'' \<lparr>cancelled = True, cancelReason = ''stop-now''\<rparr>)\<rparr>"
  have n: "constructor_name (events cancelling_handlers 0) = ''MyCancellableEvent''"
    by (simp add: cancelling_handlers_def)
  have e0: "effects ?ws = []" "events ?ws = (\<lambda>e. Cancellable ''MyCancellableEvent'' new_CancellableEvent)"
    by (simp_all add: snapshot_def cancelling_handlers_def eval_simps)
  have s: "sort_by_priority (bucket (constructor_name (events cancelling_handlers 0)) cancelling_handlers)
      = [] @ ?h1 # [?h2]"
    by (simp add: n cancelling_handlers_bucket sort_by_priority_def)
  have r1: "run_handler 0 (concat (map handler []))
      (snd (snapshot (constructor_name (events cancelling_handlers 0)) cancelling_handlers)) = (None, ?ws)"
    by (simp add: n)
  have ev: "events ?ws 0 = Cancellable ''MyCancellableEvent'' new_CancellableEvent"
    by (simp add: e0)
  have nc: "\<not> isCancelled new_CancellableEvent"
    by (simp add: isCancelled_def new_CancellableEvent_def)
  have hb: "handler ?h1 = [Output ''first''] @ Cancel (Some ''stop-now'') # [Output ''done'']"
    by simp
  have nl: "\<not> list_ex is_Cancel [Output ''done'']" by simp
  have r2: "run_handler 0 (handler ?h1) ?ws = (None, ?w2)"
    by (simp add: e0 cancel_def new_CancellableEvent_def)
  have A: "\<exists>res c'. emit 0 cancelling_handlers = Some (Inr res, ?w2)
             \<and> handlerCount res = Suc (length ([] :: EventHandlerMetadata list))
             \<and> map handlerId (executedHandlers res) = map id' ([] @ [?h1])
             \<and> events ?w2 0 = Cancellable ''MyCancellableEvent'' c' \<and> isCancelled c'
             \<and> getCancelReason c' = (case Some ''stop-now'' of None \<Rightarrow> [] | Some r \<Rightarrow> r)"
    using emit_stops_after_cancelling_handler[OF cancelling_handlers_ok,
        of 0 "[]" ?h1 "[?h2]" ?ws "''MyCancellableEvent''" new_CancellableEvent
           "[Output ''first'']" "Some ''stop-now''" "[Output ''done'']" ?w2]
      s r1 ev nc hb nl r2
    by blast
  have B: "emit 0 already_cancelled =
      Some (Inr \<lparr>event = 0, handlerCount = 0, executionTime = 0, executedHandlers = []\<rparr>,
            snd (snapshot (constructor_name (events already_cancelled 0)) already_cancelled))"
    using emit_stops_after_cancelling_handler[OF already_cancelled_ok(1), of 0] already_cancelled_ok(2)
    by blast
  from A have A': "\<exists>res w'. emit 0 cancelling_handlers = Some (Inr res, w')
        \<and> handlerCount res = 1
        \<and> map handlerId (executedHandlers res) = [''handler_1'']
        \<and> effects w' = [''first'', ''done'']
        \<and> events w' 0 = Cancellable ''MyCancellableEvent'' \<lparr>cancelled = True, cancelReason = ''stop-now''\<rparr>"
    by auto
  show ?thesis
    using A' B cancelling_handlers_ok cancelling_handlers_bucket already_cancelled_ok
    by (simp add: getHandlerIds_bucket)
qed

lemma emit_snapshot_result:
  assumes "fst (emit_snapshot e w) = Inr res"
  shows "\<exists>k\<le>length (sort_by_priority (bucket (constructor_name (events w e)) w)).
       handlerCount res = k
     \<and> map handlerId (executedHandlers res)
         = map id' (take k (sort_by_priority (bucket (constructor_name (events w e)) w)))
     \<and> map priority_d (executedHandlers res)
         = map priority (take k (sort_by_priority (bucket (constructor_name (events w e)) w)))
     \<and> (k < length (sort_by_priority (bucket (constructor_name (events w e)) w))
          \<longrightarrow> cancelled_instance (events (snd (emit_snapshot e w)) e))"
proof -
  let ?t = "constructor_name (events w e)"
  let ?hs = "sort_by_priority (bucket ?t w)"
  obtain r w' where d: "dispatch_snapshot e ?hs 0 [] (snd (snapshot ?t w)) = (r, w')"
    by (cases "dispatch_snapshot e ?hs 0 [] (snd (snapshot ?t w))")
  from assms d obtain n' ds' where r: "r = Inr (n', ds')"
    and res: "res = \<lparr>event = e, handlerCount = n', executionTime = clock w' - clock w,
        executedHandlers = ds'\<rparr>"
    by (cases r) (auto simp: emit_snapshot_def Let_def)
  have w': "snd (emit_snapshot e w) = w'"
    using d r by (simp add: emit_snapshot_def Let_def)
  from dispatch_snapshot_result[OF d[unfolded r]] show ?thesis
    unfolding w' res by simp
qed

text \<open>
  C3: in every state with a well-formed store, whatever the handlers do to the
  registry, \<open>emit\<close> returns, and returns what the dispatcher over the snapshot value
  returns: the loop, which reads the store again at every step, behaves as if it went
  through the list of records taken when \<open>emit\<close> was called. When the emission
  returns a result, the handlers it has invoked are, in order, the first
  \<open>handlerCount\<close> ids that \<open>getHandlerIds\<close> gave for the type of the event at the call,
  and it has stopped before the end of that list only if the event is cancelled.
\<close>

theorem emit_dispatches_over_snapshot:
  assumes "heap_ok w" and "sorted_buckets w"
  shows "emit e w = Some (emit_snapshot e w)
     \<and> (fst (emit_snapshot e w) = Inr res \<longrightarrow>
          map handlerId (executedHandlers res)
            = take (handlerCount res) (getHandlerIds (constructor_name (events w e)) w)
          \<and> handlerCount res \<le> getHandlerCount (constructor_name (events w e)) w
          \<and> (handlerCount res < getHandlerCount (constructor_name (events w e)) w
               \<longrightarrow> cancelled_instance (events (snd (emit_snapshot e w)) e)))"
proof (intro conjI impI)
  show "emit e w = Some (emit_snapshot e w)" using assms(1) by (rule emit_eq_snapshot)
next
  let ?t = "constructor_name (events w e)"
  assume r: "fst (emit_snapshot e w) = Inr res"
  have s: "sort_by_priority (bucket ?t w) = bucket ?t w"
    using assms sorted_buckets_iff[OF assms(1)] by (simp add: sort_by_priority_id)
  from emit_snapshot_result[OF r] obtain k where k: "k \<le> length (bucket ?t w)"
    "handlerCount res = k"
    "map handlerId (executedHandlers res) = map id' (take k (bucket ?t w))"
    "k < length (bucket ?t w) \<longrightarrow> cancelled_instance (events (snd (emit_snapshot e w)) e)"
    unfolding s by blast
  show "map handlerId (executedHandlers res) = take (handlerCount res) (getHandlerIds ?t w)"
    using k by (simp add: getHandlerIds_bucket take_map)
  show "handlerCount res \<le> getHandlerCount ?t w"
    using k by (simp add: getHandlerCount_bucket)
  show "cancelled_instance (events (snd (emit_snapshot e w)) e)"
    if "handlerCount res < getHandlerCount ?t w"
    using k that by (simp add: getHandlerCount_bucket)
qed

lemma mutating_handlers_bucket:
  "bucket ''MyEvent'' mutating_handlers =
     [\<lparr>handler = [Output ''monitor'', Call (UnregisterByPriority ''MyEvent'' HIGH),
            Call (Register ''MyEvent'' [Output ''late''] MONITOR)], priority = MONITOR, id' = ''handler_3''\<rparr>,
      \<lparr>handler = [Output ''high'', Call (Unregister ''handler_1'')], priority = HIGH, id' = ''handler_2''\<rparr>,
      \<lparr>handler = [Output ''low''], priority = LOWEST, id' = ''handler_1''\<rparr>]"
  by (simp add: mutating_handlers_def eval_simps)

lemma mutating_handlers_ok: "heap_ok mutating_handlers" "sorted_buckets mutating_handlers"
  by (simp_all add: mutating_handlers_def eval_simps heap_ok_def sorted_buckets_def)

lemma mutating_handlers_emit:
  "fst (emit_snapshot 0 mutating_handlers) =
     Inr \<lparr>event = 0, handlerCount = 3, executionTime = 0,
          executedHandlers =
            [\<lparr>priority_d = MONITOR, handlerId = ''handler_3'', executionTime_d = 0\<rparr>,
             \<lparr>priority_d = HIGH, handlerId = ''handler_2'', executionTime_d = 0\<rparr>,
             \<lparr>priority_d = LOWEST, handlerId = ''handler_1'', executionTime_d = 0\<rparr>]\<rparr>"
  "effects (snd (emit_snapshot 0 mutating_handlers)) = [''monitor'', ''high'', ''low'']"
  "getHandlerIds ''MyEvent'' (snd (emit_snapshot 0 mutating_handlers)) = [''handler_3'', ''handler_4'']"
  by (simp_all add: emit_snapshot_def snapshot_def mutating_handlers_def eval_simps
      unregister_loop.simps)

theorem emit_dispatches_over_snapshot_witness:
  "heap_ok mutating_handlers \<and> sorted_buckets mutating_handlers
   \<and> getHandlerIds ''MyEvent'' mutating_handlers = [''handler_3'', ''handler_2'', ''handler_1'']
   \<and> (\<exists>res w'. emit 0 mutating_handlers = Some (Inr res, w')
        \<and> handlerCount res = 3
        \<and> map handlerId (executedHandlers res) = [''handler_3'', ''handler_2'', ''handler_1'']
        \<and> effects w' = [''monitor'', ''high'', ''low'']
        \<and> getHandlerIds ''MyEvent'' w' = [''handler_3'', ''handler_4''])"
proof -
  let ?res = "\<lparr>event = 0, handlerCount = 3, executionTime = 0,
          executedHandlers =
            [\<lparr>priority_d = MONITOR, handlerId = ''handler_3'', executionTime_d = 0\<rparr>,
             \<lparr>priority_d = HIGH, handlerId = ''handler_2'', executionTime_d = 0\<rparr>,
             \<lparr>priority_d = LOWEST, handlerId = ''handler_1'', executionTime_d = 0\<rparr>]\<rparr>"
  have ids: "getHandlerIds ''MyEvent'' mutating_handlers = [''handler_3'', ''handler_2'', ''handler_1'']"
    by (simp add: getHandlerIds_bucket mutating_handlers_bucket)
  have "emit 0 mutating_handlers = Some (emit_snapshot 0 mutating_handlers)"
    using emit_dispatches_over_snapshot[OF mutating_handlers_ok, of 0 ?res] by blast
  then have "emit 0 mutating_handlers = Some (Inr ?res, snd (emit_snapshot 0 mutating_handlers))"
    using mutating_handlers_emit(1) by (metis prod.collapse)
  then show ?thesis
    using mutating_handlers_ok ids mutating_handlers_emit(2,3) by simp
qed

lemma sort_key_sort_key_append:
  "sort_key f (sort_key f xs @ ys) = sort_key f (xs @ ys)"
proof (rule properties_for_sort_key[symmetric, THEN sym])
  show "mset (sort_key f (xs @ ys)) = mset (sort_key f xs @ ys)" by simp
  show "sorted (map f (sort_key f (xs @ ys)))" by simp
  fix k
  have "filter (\<lambda>x. f x = f k) (sort_key f (xs @ ys)) = filter (\<lambda>x. f x = f k) (sort_key f xs @ ys)"
    by (simp add: sort_key_stable)
  then show "filter (\<lambda>x. f k = f x) (sort_key f (xs @ ys)) = filter (\<lambda>x. f k = f x) (sort_key f xs @ ys)"
    by (simp add: eq_commute)
qed

lemma register_all_heap_ok: "heap_ok w \<Longrightarrow> heap_ok (register_all t regs w)"
  by (induction regs arbitrary: w) (auto simp: register_heap_ok)

lemma register_events: "events (snd (register t h p w)) = events w"
  by (simp add: register_def Let_def split: option.splits)

lemma register_all_events: "events (register_all t regs w) = events w"
  by (induction regs arbitrary: w) (auto simp: register_events)

lemma register_all_bucket:
  "heap_ok w \<Longrightarrow>
   sort_by_priority (bucket t (register_all t regs w)) =
     sort_by_priority (bucket t w @ new_records (handlerCounter w) regs)"
proof (induction regs arbitrary: w)
  case Nil then show ?case by simp
next
  case (Cons r regs)
  obtain h p where r: "r = (h, p)" by (cases r)
  let ?w1 = "snd (register t h p w)"
  let ?rec = "\<lparr>handler = h, priority = p, id' = handler_id_of (increment (handlerCounter w))\<rparr>"
  have ok1: "heap_ok ?w1" using Cons.prems by (rule register_heap_ok)
  have b1: "bucket t ?w1 = sort_by_priority (bucket t w @ [?rec])"
    by (simp add: register_bucket[OF Cons.prems])
  have c1: "handlerCounter ?w1 = increment (handlerCounter w)" by (rule register_counter)
  have "sort_by_priority (bucket t (register_all t regs ?w1)) =
      sort_by_priority (bucket t ?w1 @ new_records (handlerCounter ?w1) regs)"
    by (rule Cons.IH[OF ok1])
  also have "\<dots> = sort_by_priority ((bucket t w @ [?rec]) @ new_records (increment (handlerCounter w)) regs)"
    unfolding b1 c1 sort_by_priority_def by (rule sort_key_sort_key_append)
  finally show ?case using r by simp
qed

lemma priority_num_inj: "priority_num p = priority_num q \<longleftrightarrow> p = q"
  by (cases p; cases q) simp_all

lemma sort_by_priority_stable:
  "filter (\<lambda>h. priority h = p) (sort_by_priority xs) = filter (\<lambda>h. priority h = p) xs"
  using sort_key_stable[of "\<lambda>h. priority_num (priority h)" "priority_num p" xs]
  by (simp add: sort_by_priority_def priority_num_inj)

text \<open>
  C1: in a state where the type \<open>t\<close> has the records \<open>bucket t w\<close>, register a list of
  handlers on \<open>t\<close> and emit an event of type \<open>t\<close>. Let \<open>L\<close> be the stable sort by
  priority of the records already present followed by the new ones in registration
  order. The emission invokes the handlers of the first \<open>handlerCount\<close> records of
  \<open>L\<close>, one after the other in the order of \<open>L\<close>: the state it leaves is the state
  reached by running their bodies in that order (last conjunct), and
  \<open>executedHandlers\<close> lists them in that order. They are all of \<open>L\<close> unless the event
  was cancelled. So the priorities of the handlers invoked never decrease, and the
  handlers of any one priority \<open>p\<close> run in this order: those already present, in the
  order they had, then the new ones in the order of their registration.
\<close>

theorem emit_runs_handlers_in_priority_order:
  assumes "heap_ok w" and "constructor_name (events w e) = t"
    and "emit e (register_all t regs w) = Some (Inr res, w')"
  shows "map handlerId (executedHandlers res) = take (handlerCount res)
          (map id' (sort_by_priority (bucket t w @ new_records (handlerCounter w) regs)))
     \<and> map priority_d (executedHandlers res) = take (handlerCount res)
          (map priority (sort_by_priority (bucket t w @ new_records (handlerCounter w) regs)))
     \<and> sorted (map priority_num (map priority_d (executedHandlers res)))
     \<and> filter (\<lambda>h. priority h = p)
          (sort_by_priority (bucket t w @ new_records (handlerCounter w) regs))
        = filter (\<lambda>h. priority h = p) (bucket t w)
          @ filter (\<lambda>h. priority h = p) (new_records (handlerCounter w) regs)
     \<and> (\<not> cancelled_instance (events w' e) \<longrightarrow>
          handlerCount res = length (bucket t w) + length regs)
     \<and> run_handler e
          (concat (map handler (take (handlerCount res)
             (sort_by_priority (bucket t w @ new_records (handlerCounter w) regs)))))
          (snd (snapshot t (register_all t regs w))) = (None, w')"
proof -
  let ?w1 = "register_all t regs w"
  let ?L = "sort_by_priority (bucket t w @ new_records (handlerCounter w) regs)"
  have ok1: "heap_ok ?w1" using assms(1) by (rule register_all_heap_ok)
  have t1: "constructor_name (events ?w1 e) = t" using assms(2) by (simp add: register_all_events)
  have L: "sort_by_priority (bucket (constructor_name (events ?w1 e)) ?w1) = ?L"
    unfolding t1 using assms(1) by (rule register_all_bucket)
  have es: "emit_snapshot e ?w1 = (Inr res, w')"
    using emit_eq_snapshot[OF ok1, of e] assms(3) by simp
  then have "fst (emit_snapshot e ?w1) = Inr res" by simp
  from emit_snapshot_result[OF this] obtain k where k: "k \<le> length ?L" "handlerCount res = k"
    "map handlerId (executedHandlers res) = map id' (take k ?L)"
    "map priority_d (executedHandlers res) = map priority (take k ?L)"
    "k < length ?L \<longrightarrow> cancelled_instance (events w' e)"
    unfolding L using es by auto
  have len: "length (new_records c regs) = length regs" for c
    by (induction regs arbitrary: c) auto
  have lL: "length ?L = length (bucket t w) + length regs"
    by (simp add: sort_by_priority_def len)
  have srt: "sorted (map (\<lambda>h. priority_num (priority h)) (take k ?L))"
    using sort_by_priority_sorted[of "bucket t w @ new_records (handlerCounter w) regs"]
    by (simp add: take_map[symmetric] sorted_wrt_take del: take_map)
  show ?thesis
  proof (intro conjI impI)
    show "map handlerId (executedHandlers res) = take (handlerCount res) (map id' ?L)"
      using k by (simp add: take_map)
    show "map priority_d (executedHandlers res) = take (handlerCount res) (map priority ?L)"
      using k by (simp add: take_map)
    show "sorted (map priority_num (map priority_d (executedHandlers res)))"
      using srt unfolding k(4) by (simp add: comp_def)
    show "filter (\<lambda>h. priority h = p) ?L
        = filter (\<lambda>h. priority h = p) (bucket t w)
          @ filter (\<lambda>h. priority h = p) (new_records (handlerCounter w) regs)"
      by (simp add: sort_by_priority_stable)
    show "handlerCount res = length (bucket t w) + length regs"
      if "\<not> cancelled_instance (events w' e)"
      using k that lL by simp
    show "run_handler e (concat (map handler (take (handlerCount res) ?L)))
        (snd (snapshot t ?w1)) = (None, w')"
      using emit_snapshot_run[OF es] register_all_bucket[OF assms(1), of t regs]
      by (simp add: t1)
  qed
qed

lemma test_registrations_emit:
  "fst (emit_snapshot 0 (register_all ''MyEvent'' test_registrations test_manager)) =
     Inr \<lparr>event = 0, handlerCount = 4, executionTime = 0,
          executedHandlers =
            [\<lparr>priority_d = MONITOR, handlerId = ''handler_3'', executionTime_d = 0\<rparr>,
             \<lparr>priority_d = HIGH, handlerId = ''handler_2'', executionTime_d = 0\<rparr>,
             \<lparr>priority_d = HIGH, handlerId = ''handler_4'', executionTime_d = 0\<rparr>,
             \<lparr>priority_d = LOWEST, handlerId = ''handler_1'', executionTime_d = 0\<rparr>]\<rparr>"
  "effects (snd (emit_snapshot 0 (register_all ''MyEvent'' test_registrations test_manager)))
     = [''monitor'', ''high'', ''high2'', ''low'']"
  by (simp_all add: emit_snapshot_def snapshot_def test_registrations_def test_manager_def
      eval_simps)

lemma test_manager_ok: "heap_ok test_manager" "constructor_name (events test_manager 0) = ''MyEvent''"
  by (simp_all add: test_manager_def new_EventManager_def heap_ok_def)

theorem emit_runs_handlers_in_priority_order_witness:
  "heap_ok test_manager \<and> constructor_name (events test_manager 0) = ''MyEvent''
   \<and> (\<exists>res w'. emit 0 (register_all ''MyEvent'' test_registrations test_manager) = Some (Inr res, w')
        \<and> handlerCount res = 4
        \<and> map handlerId (executedHandlers res)
            = [''handler_3'', ''handler_2'', ''handler_4'', ''handler_1'']
        \<and> map handlerId (executedHandlers res) = take (handlerCount res)
            (map id' (sort_by_priority (bucket ''MyEvent'' test_manager
               @ new_records (handlerCounter test_manager) test_registrations)))
        \<and> sorted (map priority_num (map priority_d (executedHandlers res)))
        \<and> run_handler 0
             (concat (map handler (take (handlerCount res)
                (sort_by_priority (bucket ''MyEvent'' test_manager
                   @ new_records (handlerCounter test_manager) test_registrations)))))
             (snd (snapshot ''MyEvent'' (register_all ''MyEvent'' test_registrations test_manager)))
            = (None, w')
        \<and> effects w' = [''monitor'', ''high'', ''high2'', ''low''])"
proof -
  let ?w1 = "register_all ''MyEvent'' test_registrations test_manager"
  let ?res = "\<lparr>event = 0, handlerCount = 4, executionTime = 0,
          executedHandlers =
            [\<lparr>priority_d = MONITOR, handlerId = ''handler_3'', executionTime_d = 0\<rparr>,
             \<lparr>priority_d = HIGH, handlerId = ''handler_2'', executionTime_d = 0\<rparr>,
             \<lparr>priority_d = HIGH, handlerId = ''handler_4'', executionTime_d = 0\<rparr>,
             \<lparr>priority_d = LOWEST, handlerId = ''handler_1'', executionTime_d = 0\<rparr>]\<rparr>"
  have "heap_ok ?w1" using test_manager_ok(1) by (rule register_all_heap_ok)
  then have "emit 0 ?w1 = Some (emit_snapshot 0 ?w1)" by (rule emit_eq_snapshot)
  then have em: "emit 0 ?w1 = Some (Inr ?res, snd (emit_snapshot 0 ?w1))"
    using test_registrations_emit(1) by (metis prod.collapse)
  note th = emit_runs_handlers_in_priority_order[OF test_manager_ok em]
  have 1: "map handlerId (executedHandlers ?res) = take (handlerCount ?res)
            (map id' (sort_by_priority (bucket ''MyEvent'' test_manager
               @ new_records (handlerCounter test_manager) test_registrations)))"
    using th by blast
  have 2: "sorted (map priority_num (map priority_d (executedHandlers ?res)))"
    using th by blast
  have 3: "run_handler 0
             (concat (map handler (take (handlerCount ?res)
                (sort_by_priority (bucket ''MyEvent'' test_manager
                   @ new_records (handlerCounter test_manager) test_registrations)))))
             (snd (snapshot ''MyEvent'' (register_all ''MyEvent'' test_registrations test_manager)))
            = (None, snd (emit_snapshot 0 ?w1))"
    using th by blast
  show ?thesis
    using test_manager_ok em 1 2 3 test_registrations_emit(2) by simp
qed

section \<open>Cancellation state of an event\<close>

text \<open>
  C10: \<open>cancel\<close> called a second time keeps the event cancelled and overwrites the
  stored reason with the reason of the second call, whatever the first call stored
  (\<open>r1\<close> is the argument of the first call, if it had one); a second call without an
  argument replaces the reason by the empty string.
\<close>

theorem cancel_twice_overwrites_reason:
  "isCancelled (cancel (Some r2) (cancel r1 ev))
   \<and> getCancelReason (cancel (Some r2) (cancel r1 ev)) = r2
   \<and> isCancelled (cancel None (cancel r1 ev))
   \<and> getCancelReason (cancel None (cancel r1 ev)) = []"
  by (simp add: isCancelled_def getCancelReason_def cancel_def)

end
